theory Spec2Isabelle
  imports Main "HOL-Library.Word"
begin

unbundle bit_operations_syntax

section \<open>Data model\<close>

text \<open>
  The repository holds two variants of one tutorial compiler: \<^verbatim>\<open>expjit3.c\<close> (RISC-V) and an
  x86 sibling. They share the lexer, the parser and the node builder \<^verbatim>\<open>mk\<close>. The builders
  differ only in how the field \<^verbatim>\<open>shared\<close> is kept: the RISC-V file counts references
  (\<^verbatim>\<open>p->shared++\<close>, a new node starts at 1), the x86 file keeps a flag (\<^verbatim>\<open>p->shared = 1\<close>, a
  new node starts at 0).
\<close>

datatype variant = RISCV | X86

text \<open>
  \<^verbatim>\<open>token_t\<close>: the enum with \<^verbatim>\<open>END_OF_FILE = 0\<close>, \<^verbatim>\<open>ERROR = 1\<close>, \<^verbatim>\<open>INT = 256\<close>, \<^verbatim>\<open>NAME\<close>; every other
  one-character token stands for itself.
\<close>

datatype token_t = END_OF_FILE | ERROR | Tok char | INT' | NAME

text \<open>
  \<^verbatim>\<open>ast_t\<close> is a pointer into the static array \<^verbatim>\<open>nodes\<close>: \<open>Ref i\<close> is \<^verbatim>\<open>&nodes[i]\<close>, \<open>Null\<close> is the
  literal \<^verbatim>\<open>0\<close> passed for leaves, and \<open>Uninit\<close> is the value of a local \<^verbatim>\<open>ast_t v;\<close> that was
  never assigned.
\<close>

datatype ast_t = Null | Ref nat | Uninit

type_synonym int32 = "32 word"

record node =
  kind :: token_t
  l :: ast_t
  r :: ast_t
  intValue :: int32
  shared :: int
  alloc :: nat
  reg :: nat
  saved :: "nat option"

text \<open>
  Everything the C code leaves undefined (dereferencing a null or unassigned pointer, writing
  past \<^verbatim>\<open>nodes[9998]\<close>) is the error \<open>Undefined_Behaviour\<close>; a failed \<^verbatim>\<open>assert\<close> is
  \<open>Assertion_Failed\<close>, with the assertion that failed. Recursion is bounded by a fuel argument, and \<open>Out_Of_Fuel\<close> says that
  the bound was reached before the function returned.
\<close>

datatype assertion = Register_Pool_Empty | Not_Shared | Nothing_Allocated | Unknown_Kind

datatype error = Undefined_Behaviour | Assertion_Failed assertion | Out_Of_Fuel

definition nodes_capacity :: nat where
  "nodes_capacity = 9999"

definition PLUS :: token_t where
  "PLUS = Tok (CHR ''+'')"

definition STAR :: token_t where
  "STAR = Tok (CHR ''*'')"

definition deref :: "node list \<Rightarrow> ast_t \<Rightarrow> error + node" where
  "deref ns p = (case p of Ref i \<Rightarrow> if i < length ns then Inr (ns ! i) else Inl Undefined_Behaviour
                 | _ \<Rightarrow> Inl Undefined_Behaviour)"

section \<open>The node builder\<close>

text \<open>
  The CSE loop of \<^verbatim>\<open>mk\<close>: the index of the first node of the pool whose
  \<^verbatim>\<open>(kind, l, r, intValue)\<close> equals the request.
\<close>

fun cse :: "node list \<Rightarrow> token_t \<Rightarrow> ast_t \<Rightarrow> ast_t \<Rightarrow> int32 \<Rightarrow> nat option" where
  "cse [] k a b c = None"
| "cse (p # ps) k a b c =
     (if kind p = k \<and> l p = a \<and> r p = b \<and> intValue p = c then Some 0
      else map_option Suc (cse ps k a b c))"

text \<open>What a CSE hit does to the node: \<^verbatim>\<open>p->shared++\<close> (RISC-V) or \<^verbatim>\<open>p->shared = 1\<close> (x86).\<close>

definition hit :: "variant \<Rightarrow> node \<Rightarrow> node" where
  "hit v p = (case v of RISCV \<Rightarrow> p\<lparr>shared := shared p + 1\<rparr> | X86 \<Rightarrow> p\<lparr>shared := 1\<rparr>)"

text \<open>The node written at \<^verbatim>\<open>nodes[next]\<close> when no rule fires.\<close>

definition fresh :: "variant \<Rightarrow> token_t \<Rightarrow> ast_t \<Rightarrow> ast_t \<Rightarrow> int32 \<Rightarrow> node" where
  "fresh v k a b c =
     \<lparr>kind = k, l = a, r = b, intValue = c,
      shared = (case v of RISCV \<Rightarrow> 1 | X86 \<Rightarrow> 0), alloc = 0, reg = 0, saved = None\<rparr>"

definition append_node :: "variant \<Rightarrow> node list \<Rightarrow> token_t \<Rightarrow> ast_t \<Rightarrow> ast_t \<Rightarrow> int32
    \<Rightarrow> error + (ast_t \<times> node list)" where
  "append_node v ns k a b c =
     (if length ns < nodes_capacity then Inr (Ref (length ns), ns @ [fresh v k a b c])
      else Inl Undefined_Behaviour)"

text \<open>
  \<^verbatim>\<open>mk(kind, l, r, k)\<close>, with the pool passed in and returned. The rules are tried in the order
  of the source. Where the source nests two calls of \<^verbatim>\<open>mk\<close> in the arguments of a third, the
  model runs them from left to right.
\<close>

primrec mk :: "nat \<Rightarrow> variant \<Rightarrow> node list \<Rightarrow> token_t \<Rightarrow> ast_t \<Rightarrow> ast_t \<Rightarrow> int32
    \<Rightarrow> error + (ast_t \<times> node list)" where
  "mk 0 v ns k a b c = Inl Out_Of_Fuel"
| "mk (Suc n) v ns k a b c =
     (if k = STAR \<or> k = PLUS then
        (case deref ns a of
           Inl e \<Rightarrow> Inl e
         | Inr na0 \<Rightarrow>
            let a1 = (if kind na0 = INT' then b else a);
                b1 = (if kind na0 = INT' then a else b)
            in
            (case cse ns k a1 b1 c of
               Some p \<Rightarrow> Inr (Ref p, ns[p := hit v (ns ! p)])
             | None \<Rightarrow>
                (case deref ns a1 of
                   Inl e \<Rightarrow> Inl e
                 | Inr na \<Rightarrow>
                    (case deref ns b1 of
                       Inl e \<Rightarrow> Inl e
                     | Inr nb \<Rightarrow>
                        if k = PLUS \<and> kind na = INT' \<and> kind nb = INT' then
                          mk n v ns INT' Null Null (intValue na + intValue nb)
                        else if k = STAR \<and> kind na = INT' \<and> kind nb = INT' then
                          mk n v ns INT' Null Null (intValue na * intValue nb)
                        else if k = STAR \<and> kind nb = INT' \<and> intValue nb = 0 then
                          mk n v ns INT' Null Null 0
                        else if k = STAR \<and> kind nb = INT' \<and> intValue nb = 1 then
                          Inr (a1, ns)
                        else if k = PLUS \<and> kind nb = INT' \<and> intValue nb = 0 then
                          Inr (a1, ns)
                        else if k = PLUS \<and> b1 = a1 then
                          (case mk n v ns INT' Null Null 2 of
                             Inl e \<Rightarrow> Inl e
                           | Inr (two, ns1) \<Rightarrow> mk n v ns1 STAR two a1 0)
                        else if k = PLUS \<and> kind na = PLUS then
                          (case deref ns (r na) of
                             Inl e \<Rightarrow> Inl e
                           | Inr nar \<Rightarrow>
                              if kind nar = INT' then
                                (case mk n v ns PLUS b1 (r na) 0 of
                                   Inl e \<Rightarrow> Inl e
                                 | Inr (t, ns1) \<Rightarrow> mk n v ns1 PLUS (l na) t 0)
                              else append_node v ns k a1 b1 c)
                        else if k = STAR \<and> kind na = STAR then
                          (case deref ns (r na) of
                             Inl e \<Rightarrow> Inl e
                           | Inr nar \<Rightarrow>
                              if kind nar = INT' then
                                (case mk n v ns STAR b1 (r na) 0 of
                                   Inl e \<Rightarrow> Inl e
                                 | Inr (t, ns1) \<Rightarrow> mk n v ns1 STAR (l na) t 0)
                              else append_node v ns k a1 b1 c)
                        else if k = STAR \<and> kind nb = INT' \<and> kind na = PLUS then
                          (case deref ns (r na) of
                             Inl e \<Rightarrow> Inl e
                           | Inr nar \<Rightarrow>
                              if kind nar = INT' then
                                (case mk n v ns STAR (l na) b1 0 of
                                   Inl e \<Rightarrow> Inl e
                                 | Inr (t1, ns1) \<Rightarrow>
                                    (case mk n v ns1 STAR (r na) b1 0 of
                                       Inl e \<Rightarrow> Inl e
                                     | Inr (t2, ns2) \<Rightarrow> mk n v ns2 PLUS t1 t2 0))
                              else append_node v ns k a1 b1 c)
                        else append_node v ns k a1 b1 c))))
      else
        (case cse ns k a b c of
           Some p \<Rightarrow> Inr (Ref p, ns[p := hit v (ns ! p)])
         | None \<Rightarrow> append_node v ns k a b c))"

section \<open>Lexical analysis\<close>

text \<open>
  The globals of the lexer. \<open>source\<close> is the text the program was started on (a C string:
  the position \<open>length source\<close> holds the terminating NUL), and \<open>s\<close> is the source pointer
  as an offset into it. \<^verbatim>\<open>symbolLength\<close> is written but never read and is left out.
\<close>

record lexer =
  source :: string
  s :: nat
  lookahead :: token_t
  lex_intValue :: int32
  symbolValue :: nat

definition isspace :: "char \<Rightarrow> bool" where
  "isspace c = (of_char c \<in> {9, 10, 11, 12, 13, 32 :: nat})"

definition isdigit :: "char \<Rightarrow> bool" where
  "isdigit c = (48 \<le> (of_char c :: nat) \<and> (of_char c :: nat) \<le> 57)"

definition isalpha :: "char \<Rightarrow> bool" where
  "isalpha c = ((65 \<le> (of_char c :: nat) \<and> (of_char c :: nat) \<le> 90) \<or>
                (97 \<le> (of_char c :: nat) \<and> (of_char c :: nat) \<le> 122))"

definition isalnum :: "char \<Rightarrow> bool" where
  "isalnum c = (isalpha c \<or> isdigit c)"

text \<open>\<^verbatim>\<open>lookahead = *s++\<close>: the character read as a \<^verbatim>\<open>token_t\<close>.\<close>

definition token_of_char :: "char \<Rightarrow> token_t" where
  "token_of_char c =
     (if (of_char c :: nat) = 0 then END_OF_FILE
      else if (of_char c :: nat) = 1 then ERROR else Tok c)"

text \<open>\<^verbatim>\<open>intValue = 10*intValue + *s++ - '0'\<close>, over the run of digits, in 32 bits.\<close>

definition digits_value :: "string \<Rightarrow> int32" where
  "digits_value ds = foldl (\<lambda>a d. 10 * a + of_nat (of_char d) - 48) 0 ds"

definition nexttoken :: "lexer \<Rightarrow> error + lexer" where
  "nexttoken x =
     (if length (source x) < s x then Inl Undefined_Behaviour
      else
        let rest = dropWhile isspace (drop (s x) (source x));
            p = length (source x) - length rest
        in
        (case rest of
           [] \<Rightarrow> Inr (x\<lparr>s := p + 1, lookahead := END_OF_FILE\<rparr>)
         | c # cs \<Rightarrow>
            if isdigit c then
              Inr (x\<lparr>s := p + length (takeWhile isdigit rest), lookahead := INT',
                     lex_intValue := digits_value (takeWhile isdigit rest)\<rparr>)
            else if isalpha c then
              Inr (x\<lparr>s := p + length (takeWhile isalnum rest), lookahead := NAME,
                     symbolValue := p\<rparr>)
            else Inr (x\<lparr>s := p + 1, lookahead := token_of_char c\<rparr>)))"

definition match :: "token_t \<Rightarrow> lexer \<Rightarrow> error + lexer" where
  "match expect x =
     (if lookahead x \<noteq> expect then Inr (x\<lparr>lookahead := ERROR\<rparr>) else nexttoken x)"

section \<open>Recursive descent parsing\<close>

text \<open>
  The parser threads the lexer and the pool. The two \<^verbatim>\<open>while\<close> loops of \<^verbatim>\<open>pTerm\<close> and \<^verbatim>\<open>pExp\<close>
  are the entries \<open>PTerm_loop\<close> and \<open>PExp_loop\<close> (carrying the local \<^verbatim>\<open>v\<close>) of one function
  \<open>parse\<close>, which holds the three mutually recursive C functions, selected by its third
  argument. In \<^verbatim>\<open>pFactor\<close> the \<^verbatim>\<open>switch\<close> has no
  \<^verbatim>\<open>default\<close>: on any other token the local \<^verbatim>\<open>v\<close> is returned as it was declared.
\<close>

type_synonym pstate = "lexer \<times> node list"

definition then_match :: "token_t \<Rightarrow> error + (ast_t \<times> pstate) \<Rightarrow> error + (ast_t \<times> pstate)" where
  "then_match expect res =
     (case res of
        Inl e \<Rightarrow> Inl e
      | Inr (t, x, ns) \<Rightarrow>
         (case match expect x of Inl e \<Rightarrow> Inl e | Inr x' \<Rightarrow> Inr (t, x', ns)))"

definition with_pool :: "lexer \<Rightarrow> error + (ast_t \<times> node list) \<Rightarrow> error + (ast_t \<times> pstate)" where
  "with_pool x res = (case res of Inl e \<Rightarrow> Inl e | Inr (t, ns) \<Rightarrow> Inr (t, x, ns))"

datatype parser_fn = PFactor | PTerm | PTerm_loop ast_t | PExp | PExp_loop ast_t

primrec parse :: "nat \<Rightarrow> variant \<Rightarrow> parser_fn \<Rightarrow> pstate \<Rightarrow> error + (ast_t \<times> pstate)" where
  "parse 0 v f st = Inl Out_Of_Fuel"
| "parse (Suc n) v f st =
     (case f of
        PFactor \<Rightarrow>
          if lookahead (fst st) = Tok (CHR ''('') then
            (case match (Tok (CHR ''('')) (fst st) of
               Inl e \<Rightarrow> Inl e
             | Inr x1 \<Rightarrow> then_match (Tok (CHR '')'')) (parse n v PExp (x1, snd st)))
          else if lookahead (fst st) = NAME then
            then_match NAME (with_pool (fst st)
              (mk n v (snd st) NAME Null Null
                 (of_nat (of_char (source (fst st) ! symbolValue (fst st))))))
          else if lookahead (fst st) = INT' then
            then_match INT' (with_pool (fst st)
              (mk n v (snd st) INT' Null Null (lex_intValue (fst st))))
          else Inr (Uninit, st)
      | PTerm \<Rightarrow>
          (case parse n v PFactor st of
             Inl e \<Rightarrow> Inl e
           | Inr (t, st1) \<Rightarrow> parse n v (PTerm_loop t) st1)
      | PTerm_loop t \<Rightarrow>
          if lookahead (fst st) = STAR then
            (case match STAR (fst st) of
               Inl e \<Rightarrow> Inl e
             | Inr x1 \<Rightarrow>
                (case parse n v PFactor (x1, snd st) of
                   Inl e \<Rightarrow> Inl e
                 | Inr (u, x2, ns2) \<Rightarrow>
                    (case mk n v ns2 STAR t u 0 of
                       Inl e \<Rightarrow> Inl e
                     | Inr (t', ns3) \<Rightarrow> parse n v (PTerm_loop t') (x2, ns3))))
          else Inr (t, st)
      | PExp \<Rightarrow>
          (case parse n v PTerm st of
             Inl e \<Rightarrow> Inl e
           | Inr (t, st1) \<Rightarrow> parse n v (PExp_loop t) st1)
      | PExp_loop t \<Rightarrow>
          if lookahead (fst st) = PLUS then
            (case match PLUS (fst st) of
               Inl e \<Rightarrow> Inl e
             | Inr x1 \<Rightarrow>
                (case parse n v PTerm (x1, snd st) of
                   Inl e \<Rightarrow> Inl e
                 | Inr (u, x2, ns2) \<Rightarrow>
                    (case mk n v ns2 PLUS t u 0 of
                       Inl e \<Rightarrow> Inl e
                     | Inr (t', ns3) \<Rightarrow> parse n v (PExp_loop t') (x2, ns3))))
          else Inr (t, st))"

definition pExp :: "nat \<Rightarrow> variant \<Rightarrow> pstate \<Rightarrow> error + (ast_t \<times> pstate)" where
  "pExp n v st = parse n v PExp st"

section \<open>Well-formed pools and tree-walking evaluation\<close>

text \<open>
  \<open>is_ref_below n p\<close>: the pointer \<open>p\<close> is \<^verbatim>\<open>&nodes[i]\<close> for some \<open>i < n\<close>.
\<close>

definition is_ref_below :: "nat \<Rightarrow> ast_t \<Rightarrow> bool" where
  "is_ref_below n p = (case p of Ref i \<Rightarrow> i < n | _ \<Rightarrow> False)"

definition the_ref :: "ast_t \<Rightarrow> nat" where
  "the_ref p = (case p of Ref i \<Rightarrow> i | _ \<Rightarrow> 0)"

definition is_binop :: "token_t \<Rightarrow> bool" where
  "is_binop k = (k = STAR \<or> k = PLUS)"

text \<open>
  A pool is well formed when both children of every \<^verbatim>\<open>+\<close> and \<^verbatim>\<open>*\<close> node are earlier nodes of
  the pool. Every pool that \<open>mk\<close> builds from the empty pool is well formed.
\<close>

definition wf_node :: "nat \<Rightarrow> node \<Rightarrow> bool" where
  "wf_node i p = (is_binop (kind p) \<longrightarrow> is_ref_below i (l p) \<and> is_ref_below i (r p))"

definition wf_pool :: "node list \<Rightarrow> bool" where
  "wf_pool ns = (\<forall>i \<in> {..<length ns}. wf_node i (ns ! i))"

text \<open>
  The environment is the table \<^verbatim>\<open>env[256]\<close>, indexed by the character of the name.
\<close>

type_synonym env_t = "nat \<Rightarrow> int32"

definition default_env :: env_t where
  "default_env i = (if i = 120 then 2 else if i = 121 then 3 else 0)"

text \<open>
  The direct tree-walking evaluation of the node \<open>i\<close> of a pool, in 32-bit arithmetic. The
  source has no such function; this is the reference the generated code is compared with. It
  is 0 where the pool is not well formed.
\<close>

function eval :: "env_t \<Rightarrow> node list \<Rightarrow> nat \<Rightarrow> int32" where
  "eval env ns i =
     (if length ns \<le> i then 0
      else if kind (ns ! i) = INT' then intValue (ns ! i)
      else if kind (ns ! i) = NAME then env (unat (intValue (ns ! i)))
      else if kind (ns ! i) = PLUS \<and> is_ref_below i (l (ns ! i)) \<and> is_ref_below i (r (ns ! i)) then
        eval env ns (the_ref (l (ns ! i))) + eval env ns (the_ref (r (ns ! i)))
      else if kind (ns ! i) = STAR \<and> is_ref_below i (l (ns ! i)) \<and> is_ref_below i (r (ns ! i)) then
        eval env ns (the_ref (l (ns ! i))) * eval env ns (the_ref (r (ns ! i)))
      else 0)"
  by pat_completeness auto
termination
  by (relation "measure (\<lambda>(env, ns, i). i)")
     (auto simp: is_ref_below_def the_ref_def split: ast_t.splits)

declare eval.simps [simp del]

text \<open>The fields of a node that \<open>mk\<close> never changes once the node is in the pool.\<close>

definition core :: "node \<Rightarrow> token_t \<times> ast_t \<times> ast_t \<times> int32" where
  "core p = (kind p, l p, r p, intValue p)"

text \<open>\<open>extends ns ns'\<close>: the pool \<open>ns'\<close> is \<open>ns\<close> with nodes appended and \<open>shared\<close> fields changed.\<close>

definition extends :: "node list \<Rightarrow> node list \<Rightarrow> bool" where
  "extends ns ns' =
     (length ns \<le> length ns' \<and> (\<forall>i \<in> {..<length ns}. core (ns' ! i) = core (ns ! i)))"

text \<open>
  What a call \<open>mk k a b c\<close> is meant to denote, and the contract of a call that returns \<open>p\<close>
  and the pool \<open>ns'\<close>: the pool only grows, stays well formed, and \<open>p\<close> evaluates to the
  meaning of the request.
\<close>

definition sem :: "env_t \<Rightarrow> node list \<Rightarrow> token_t \<Rightarrow> ast_t \<Rightarrow> ast_t \<Rightarrow> int32 \<Rightarrow> int32" where
  "sem env ns k a b c =
     (if k = PLUS then eval env ns (the_ref a) + eval env ns (the_ref b)
      else if k = STAR then eval env ns (the_ref a) * eval env ns (the_ref b)
      else if k = INT' then c else env (unat c))"



section \<open>The invariant of the pool\<close>

text \<open>
  The operands after \<^verbatim>\<open>if (... && l->kind == INT) t = l, l = r, r = t;\<close>.
\<close>

definition canon :: "node list \<Rightarrow> ast_t \<Rightarrow> ast_t \<Rightarrow> ast_t \<times> ast_t" where
  "canon ns a b = (if kind (ns ! the_ref a) = INT' then (b, a) else (a, b))"

text \<open>
  \<open>fires ns k a b\<close>: one of the folding and simplification rules of \<^verbatim>\<open>mk\<close> applies to the
  request \<open>(k, a, b)\<close>, so that \<^verbatim>\<open>mk\<close> does not create the node \<open>(k, a, b)\<close>.
\<close>

definition fires :: "node list \<Rightarrow> token_t \<Rightarrow> ast_t \<Rightarrow> ast_t \<Rightarrow> bool" where
  "fires ns k a b =
     (let na = ns ! the_ref a; nb = ns ! the_ref b in
      (kind na = INT' \<and> kind nb = INT') \<or>
      (k = STAR \<and> kind nb = INT' \<and> intValue nb = 0) \<or>
      (k = STAR \<and> kind nb = INT' \<and> intValue nb = 1) \<or>
      (k = PLUS \<and> kind nb = INT' \<and> intValue nb = 0) \<or>
      (k = PLUS \<and> b = a) \<or>
      (k = PLUS \<and> kind na = PLUS \<and> kind (ns ! the_ref (r na)) = INT') \<or>
      (k = STAR \<and> kind na = STAR \<and> kind (ns ! the_ref (r na)) = INT') \<or>
      (k = STAR \<and> kind nb = INT' \<and> kind na = PLUS \<and> kind (ns ! the_ref (r na)) = INT'))"

text \<open>
  A node of the pool is in normal form: a leaf has no children; a \<^verbatim>\<open>+\<close> or \<^verbatim>\<open>*\<close> node has its
  constant, if any, on the right, and no rule applies to it.
\<close>

definition nf_node :: "node list \<Rightarrow> node \<Rightarrow> bool" where
  "nf_node ns p =
     (if is_binop (kind p) then kind (ns ! the_ref (l p)) \<noteq> INT' \<and> \<not> fires ns (kind p) (l p) (r p)
      else (kind p = INT' \<or> kind p = NAME) \<and> l p = Null \<and> r p = Null)"

text \<open>
  The invariant of every pool that \<open>mk\<close> builds from the empty pool: well formed, no two
  nodes with the same \<^verbatim>\<open>(kind, l, r, intValue)\<close>, every node in normal form, and in the RISC-V
  file every reference count at least 1.
\<close>

definition pool_inv :: "variant \<Rightarrow> node list \<Rightarrow> bool" where
  "pool_inv v ns =
     (wf_pool ns \<and> distinct (map core ns) \<and> (\<forall>i \<in> {..<length ns}. nf_node ns (ns ! i)) \<and>
      (v = RISCV \<longrightarrow> (\<forall>i \<in> {..<length ns}. 1 \<le> shared (ns ! i))))"

text \<open>The requests the source makes: \<^verbatim>\<open>mk('+', l, r, 0)\<close>, \<^verbatim>\<open>mk('*', l, r, 0)\<close>, \<^verbatim>\<open>mk(INT, 0, 0, k)\<close>
  and \<^verbatim>\<open>mk(NAME, 0, 0, k)\<close>.\<close>

definition proper :: "token_t \<Rightarrow> ast_t \<Rightarrow> ast_t \<Rightarrow> int32 \<Rightarrow> bool" where
  "proper k a b c = (if is_binop k then c = 0 else (k = INT' \<or> k = NAME) \<and> a = Null \<and> b = Null)"

text \<open>Two more pools used to run the theorems.\<close>

definition pool_x_0_1 :: "node list" where
  "pool_x_0_1 =
     [fresh RISCV NAME Null Null 120, fresh RISCV INT' Null Null 0, fresh RISCV INT' Null Null 1]"

definition pool_3_4 :: "node list" where
  "pool_3_4 = [fresh RISCV INT' Null Null 3, fresh RISCV INT' Null Null 4]"

text \<open>The pool after the first \<^verbatim>\<open>mk(NAME, 0, 0, 'x')\<close>.\<close>

definition pool_x :: "variant \<Rightarrow> node list" where
  "pool_x v = [fresh v NAME Null Null 120]"

section \<open>Unparsing\<close>

text \<open>\<^verbatim>\<open>printf("%d", n)\<close>: the decimal digits of a signed 32-bit integer.\<close>

fun decimal :: "nat \<Rightarrow> string" where
  "decimal n =
     (if n < 10 then [char_of (48 + n)] else decimal (n div 10) @ [char_of (48 + n mod 10)])"

declare decimal.simps [simp del]

definition print_int :: "int32 \<Rightarrow> string" where
  "print_int w = (if sint w < 0 then CHR ''-'' # decimal (nat (- sint w)) else decimal (nat (sint w)))"

text \<open>\<^verbatim>\<open>printf("%c", t->kind)\<close>: the token as a character.\<close>

definition kind_char :: "token_t \<Rightarrow> char" where
  "kind_char k =
     (case k of Tok c \<Rightarrow> c | END_OF_FILE \<Rightarrow> char_of (0 :: nat) | ERROR \<Rightarrow> char_of (1 :: nat)
      | INT' \<Rightarrow> char_of (256 :: nat) | NAME \<Rightarrow> char_of (257 :: nat))"

text \<open>
  \<^verbatim>\<open>unparse\<close> is the same in both files: a binary node prints \<^verbatim>\<open>!\<close> after its opening
  parenthesis when its field \<^verbatim>\<open>shared\<close> is not zero.
\<close>

primrec unparse :: "nat \<Rightarrow> node list \<Rightarrow> ast_t \<Rightarrow> error + string" where
  "unparse 0 ns t = Inl Out_Of_Fuel"
| "unparse (Suc n) ns t =
     (case deref ns t of
        Inl e \<Rightarrow> Inl e
      | Inr p \<Rightarrow>
         if kind p = INT' then Inr (print_int (intValue p))
         else if kind p = NAME then Inr [char_of (unat (intValue p))]
         else
           (case unparse n ns (l p) of
              Inl e \<Rightarrow> Inl e
            | Inr sl \<Rightarrow>
               (case unparse n ns (r p) of
                  Inl e \<Rightarrow> Inl e
                | Inr sr \<Rightarrow>
                   Inr (''('' @ (if shared p \<noteq> 0 then ''!'' else []) @ sl @ [kind_char (kind p)]
                        @ sr @ '')''))))"

text \<open>
  The first half of \<^verbatim>\<open>main\<close>, the same in both files: lex the first token, parse, and test
  \<^verbatim>\<open>lookahead\<close>. \<open>Syntax_Error rest\<close> is the message \<^verbatim>\<open>Syntax error at:\<close> followed by the text
  from the source pointer on, and the exit code \<^verbatim>\<open>-1\<close>.
\<close>

datatype 'a outcome = Syntax_Error string | Done 'a

definition parse_main :: "nat \<Rightarrow> variant \<Rightarrow> string \<Rightarrow> error + (ast_t \<times> node list) outcome" where
  "parse_main n v src =
     (case nexttoken \<lparr>source = src, s = 0, lookahead = END_OF_FILE, lex_intValue = 0,
                       symbolValue = 0\<rparr> of
        Inl e \<Rightarrow> Inl e
      | Inr x0 \<Rightarrow>
         (case pExp n v (x0, []) of
            Inl e \<Rightarrow> Inl e
          | Inr (res, x, ns) \<Rightarrow>
             if lookahead x \<noteq> END_OF_FILE then
               (if s x \<le> length (source x) then Inr (Syntax_Error (drop (s x) (source x)))
                else Inl Undefined_Behaviour)
             else Inr (Done (res, ns))))"

section \<open>Code generation for RISC-V\<close>

text \<open>
  The globals of the code generator of \<^verbatim>\<open>expjit3.c\<close>: the pool, the array \<^verbatim>\<open>reg_poll\<close> with its
  index \<^verbatim>\<open>next_free\<close>, and the 32-bit words written so far between \<^verbatim>\<open>code\<close> and \<^verbatim>\<open>cp\<close>. The
  buffer has no bound in the model.
\<close>

record riscv =
  nodes :: "node list"
  reg_poll :: "nat list"
  next_free :: nat
  code :: "32 word list"

definition reg_a0 :: nat where
  "reg_a0 = 10"

definition reg_poll_init :: "nat list" where
  "reg_poll_init = [5, 6, 7, 8, 9, 11, 12, 13, 14, 15, 16, 17, 18, 19, 20,
                    21, 22, 23, 24, 25, 26, 27, 28, 29, 30, 31]"

text \<open>\<^verbatim>\<open>sizeof reg_poll / sizeof *reg_poll\<close>.\<close>

definition reg_poll_size :: nat where
  "reg_poll_size = 26"

text \<open>\<^verbatim>\<open>alloc(t)\<close>; the name \<open>alloc\<close> is the field of the node.\<close>

definition alloc_reg :: "ast_t \<Rightarrow> riscv \<Rightarrow> error + riscv" where
  "alloc_reg t st =
     (case deref (nodes st) t of
        Inl e \<Rightarrow> Inl e
      | Inr p \<Rightarrow>
         if alloc p \<noteq> 0 then
           Inr (st\<lparr>nodes := (nodes st)[the_ref t := p\<lparr>reg := alloc p\<rparr>]\<rparr>)
         else if next_free st < reg_poll_size then
           Inr (st\<lparr>nodes := (nodes st)[the_ref t := p\<lparr>reg := reg_poll st ! next_free st\<rparr>],
                  next_free := next_free st + 1\<rparr>)
         else Inl (Assertion_Failed Register_Pool_Empty))"

definition use :: "ast_t \<Rightarrow> riscv \<Rightarrow> error + (nat \<times> riscv)" where
  "use t st =
     (case deref (nodes st) t of
        Inl e \<Rightarrow> Inl e
      | Inr p \<Rightarrow>
         if \<not> 0 < shared p then Inl (Assertion_Failed Not_Shared)
         else
           let st1 = st\<lparr>nodes := (nodes st)[the_ref t := p\<lparr>shared := shared p - 1\<rparr>]\<rparr> in
           if shared p - 1 = 0 then
             (if 0 < next_free st then
                Inr (reg p, st1\<lparr>reg_poll := (reg_poll st)[next_free st - 1 := reg p],
                                next_free := next_free st - 1\<rparr>)
              else Inl (Assertion_Failed Nothing_Allocated))
           else Inr (reg p, st1))"

definition emit :: "32 word \<Rightarrow> riscv \<Rightarrow> riscv" where
  "emit w st = st\<lparr>code := code st @ [w]\<rparr>"

text \<open>The instruction words, as the source builds them.\<close>

definition lui_word :: "int32 \<Rightarrow> nat \<Rightarrow> 32 word" where
  "lui_word k rd = (k AND 0xFFFFF000) OR push_bit 7 (of_nat rd) OR 0x37"

definition addi_word :: "int32 \<Rightarrow> nat \<Rightarrow> nat \<Rightarrow> 32 word" where
  "addi_word k hi rd =
     push_bit 20 (k AND 0xFFF) OR push_bit 15 (of_nat hi) OR push_bit 7 (of_nat rd) OR 0x13"

definition lw_word :: "int32 \<Rightarrow> nat \<Rightarrow> 32 word" where
  "lw_word k rd =
     push_bit 20 (k * 4) OR push_bit 12 2 OR push_bit 15 (of_nat reg_a0) OR push_bit 7 (of_nat rd)
       OR 0x03"

definition add_word :: "nat \<Rightarrow> nat \<Rightarrow> nat \<Rightarrow> 32 word" where
  "add_word rr rl rd =
     push_bit 20 (of_nat rr) OR push_bit 15 (of_nat rl) OR push_bit 7 (of_nat rd) OR 0x33"

definition mul_word :: "nat \<Rightarrow> nat \<Rightarrow> nat \<Rightarrow> 32 word" where
  "mul_word rr rl rd =
     push_bit 25 1 OR push_bit 20 (of_nat rr) OR push_bit 15 (of_nat rl) OR push_bit 7 (of_nat rd)
       OR 0x33"

text \<open>The \<^verbatim>\<open>INT\<close> case after \<^verbatim>\<open>alloc(t)\<close>: an optional \<^verbatim>\<open>lui\<close>, then \<^verbatim>\<open>addi\<close>.\<close>

definition emit_int :: "int32 \<Rightarrow> nat \<Rightarrow> riscv \<Rightarrow> riscv" where
  "emit_int k rd st =
     (if k AND 0xFFFFF000 \<noteq> 0 then emit (addi_word k rd rd) (emit (lui_word k rd) st)
      else emit (addi_word k 0 rd) st)"

text \<open>
  \<^verbatim>\<open>codegen(t)\<close> of \<^verbatim>\<open>expjit3.c\<close>. The cases \<^verbatim>\<open>'+'\<close> and \<^verbatim>\<open>'*'\<close> of the source differ in the
  instruction word only.
\<close>

primrec codegen :: "nat \<Rightarrow> ast_t \<Rightarrow> riscv \<Rightarrow> error + riscv" where
  "codegen 0 t st = Inl Out_Of_Fuel"
| "codegen (Suc n) t st =
     (case deref (nodes st) t of
        Inl e \<Rightarrow> Inl e
      | Inr p \<Rightarrow>
         if reg p \<noteq> 0 then Inr st
         else if kind p = INT' then
           (case alloc_reg t st of
              Inl e \<Rightarrow> Inl e
            | Inr st1 \<Rightarrow> Inr (emit_int (intValue p) (reg (nodes st1 ! the_ref t)) st1))
         else if kind p = NAME then
           (case alloc_reg t st of
              Inl e \<Rightarrow> Inl e
            | Inr st1 \<Rightarrow> Inr (emit (lw_word (intValue p) (reg (nodes st1 ! the_ref t))) st1))
         else if kind p = PLUS \<or> kind p = STAR then
           (case codegen n (l p) st of
              Inl e \<Rightarrow> Inl e
            | Inr st1 \<Rightarrow>
               (case codegen n (r p) st1 of
                  Inl e \<Rightarrow> Inl e
                | Inr st2 \<Rightarrow>
                   (case use (r p) st2 of
                      Inl e \<Rightarrow> Inl e
                    | Inr (rr, st3) \<Rightarrow>
                       (case use (l p) st3 of
                          Inl e \<Rightarrow> Inl e
                        | Inr (rl, st4) \<Rightarrow>
                           (case alloc_reg t st4 of
                              Inl e \<Rightarrow> Inl e
                            | Inr st5 \<Rightarrow>
                               Inr (emit ((if kind p = PLUS then add_word else mul_word)
                                            rr rl (reg (nodes st5 ! the_ref t))) st5))))))
         else Inl (Assertion_Failed Unknown_Kind))"

text \<open>
  The second half of \<^verbatim>\<open>main\<close> of \<^verbatim>\<open>expjit3.c\<close>: \<^verbatim>\<open>res->alloc = reg_a0; codegen(res);
  *cp++ = 0x8082;\<close>. The result is the words of the buffer.
\<close>

definition compile_riscv :: "nat \<Rightarrow> ast_t \<Rightarrow> node list \<Rightarrow> error + 32 word list" where
  "compile_riscv n res ns =
     (case deref ns res of
        Inl e \<Rightarrow> Inl e
      | Inr p \<Rightarrow>
         (case codegen n res
                 \<lparr>nodes = ns[the_ref res := p\<lparr>alloc := reg_a0\<rparr>], reg_poll = reg_poll_init,
                  next_free = 0, code = []\<rparr> of
            Inl e \<Rightarrow> Inl e
          | Inr st \<Rightarrow> Inr (code st @ [0x8082])))"

section \<open>Code generation for x86\<close>

text \<open>
  The globals of the code generator of the x86 file: the pool, the bytes written so far
  between \<^verbatim>\<open>code\<close> and \<^verbatim>\<open>cp\<close>, the counter \<^verbatim>\<open>instructions\<close>, and \<^verbatim>\<open>cse_p\<close> as the index of the
  next free element of \<^verbatim>\<open>cse_values\<close>. The field \<^verbatim>\<open>saved\<close> of a node holds the index of its
  element of \<^verbatim>\<open>cse_values\<close>. The generated code embeds the addresses of the static arrays
  \<^verbatim>\<open>env\<close> and \<^verbatim>\<open>cse_values\<close>, which the linker chooses: they are parameters.
\<close>

record x86 =
  x_nodes :: "node list"
  x_code :: "8 word list"
  instructions :: int
  cse_p :: nat

record layout =
  env_addr :: "32 word"
  cse_addr :: "32 word"

text \<open>\<^verbatim>\<open>*(int *)cp = w; cp += 4\<close> on a little-endian machine.\<close>

definition le32 :: "32 word \<Rightarrow> 8 word list" where
  "le32 w = [ucast w, ucast (drop_bit 8 w), ucast (drop_bit 16 w), ucast (drop_bit 24 w)]"

definition emit_x :: "8 word list \<Rightarrow> x86 \<Rightarrow> x86" where
  "emit_x bs st = st\<lparr>x_code := x_code st @ bs\<rparr>"

primrec codegen_x86 :: "nat \<Rightarrow> layout \<Rightarrow> ast_t \<Rightarrow> x86 \<Rightarrow> error + x86" where
  "codegen_x86 0 lay t st = Inl Out_Of_Fuel"
| "codegen_x86 (Suc n) lay t st =
     (case deref (x_nodes st) t of
        Inl e \<Rightarrow> Inl e
      | Inr p \<Rightarrow>
         if kind p = INT' then
           Inr ((emit_x (0xB8 # le32 (intValue p)) st)\<lparr>instructions := instructions st + 1\<rparr>)
         else if kind p = NAME then
           Inr ((emit_x (0xA1 # le32 (env_addr lay + 4 * intValue p)) st)
                  \<lparr>instructions := instructions st + 1\<rparr>)
         else
           (case saved p of
              Some j \<Rightarrow>
                Inr ((emit_x (0xA1 # le32 (cse_addr lay + 4 * of_nat j)) st)
                       \<lparr>instructions := instructions st + 1\<rparr>)
            | None \<Rightarrow>
               (case codegen_x86 n lay (r p) st of
                  Inl e \<Rightarrow> Inl e
                | Inr st1 \<Rightarrow>
                   (case codegen_x86 n lay (l p) (emit_x [0x50] st1) of
                      Inl e \<Rightarrow> Inl e
                    | Inr st2 \<Rightarrow>
                       let st3 = (emit_x (0x5B # (if kind p = PLUS then [0x01, 0xD8]
                                                   else [0x0F, 0xAF, 0xC3])) st2)
                                   \<lparr>instructions := instructions st2 + 2\<rparr>;
                           q = x_nodes st3 ! the_ref t
                       in
                       if shared q \<noteq> 0 then
                         Inr ((emit_x (0xA3 # le32 (cse_addr lay + 4 * of_nat (cse_p st3))) st3)
                                \<lparr>x_nodes := (x_nodes st3)[the_ref t := q\<lparr>saved := Some (cse_p st3)\<rparr>],
                                 cse_p := cse_p st3 + 1,
                                 instructions := instructions st3 + 1\<rparr>)
                       else Inr st3))))"

text \<open>
  The second half of \<^verbatim>\<open>main\<close> of the x86 file: \<^verbatim>\<open>push %ebx\<close>, the code of the expression,
  \<^verbatim>\<open>pop %ebx; ret\<close>. The result is the bytes of the buffer and the count that is printed.
\<close>

definition compile_x86 :: "nat \<Rightarrow> layout \<Rightarrow> ast_t \<Rightarrow> node list \<Rightarrow> error + (8 word list \<times> int)" where
  "compile_x86 n lay res ns =
     (case codegen_x86 n lay res \<lparr>x_nodes = ns, x_code = [0x53], instructions = 0, cse_p = 0\<rparr> of
        Inl e \<Rightarrow> Inl e
      | Inr st \<Rightarrow> Inr (x_code st @ [0x5B, 0xC3], instructions st + 1))"

section \<open>The two processors\<close>

text \<open>
  \<^verbatim>\<open>main\<close> casts the buffer to a function pointer and calls it. What the call returns is
  decided by the processor, not by the repository. The claims that speak of the result of
  the generated code are read against the following two interpreters, which give the
  instructions that the source names in its comments their meaning in the RISC-V and x86
  manuals. Both buffers are straight-line code up to the return instruction.
\<close>

subsection \<open>RISC-V (RV64)\<close>

text \<open>
  The register file holds 64-bit values and \<^verbatim>\<open>x0\<close> reads as zero. The function is called with
  the address of \<^verbatim>\<open>env\<close> in \<^verbatim>\<open>a0\<close>, and its \<^verbatim>\<open>int\<close> result is the low half of \<^verbatim>\<open>a0\<close>. Memory holds
  the 256 elements of \<^verbatim>\<open>env\<close> from \<open>base\<close> on; a load from anywhere else is undefined.
\<close>

type_synonym regfile = "nat \<Rightarrow> 64 word"

definition rd_of :: "32 word \<Rightarrow> nat" where
  "rd_of w = unat (drop_bit 7 w AND 0x1F)"

definition rs1_of :: "32 word \<Rightarrow> nat" where
  "rs1_of w = unat (drop_bit 15 w AND 0x1F)"

definition rs2_of :: "32 word \<Rightarrow> nat" where
  "rs2_of w = unat (drop_bit 20 w AND 0x1F)"

definition imm12_of :: "32 word \<Rightarrow> 64 word" where
  "imm12_of w = signed_take_bit 11 (ucast (drop_bit 20 w))"

definition get_reg :: "regfile \<Rightarrow> nat \<Rightarrow> 64 word" where
  "get_reg rf i = (if i = 0 then 0 else rf i)"

definition set_reg :: "regfile \<Rightarrow> nat \<Rightarrow> 64 word \<Rightarrow> regfile" where
  "set_reg rf i x = (if i = 0 then rf else rf(i := x))"

definition load_env :: "64 word \<Rightarrow> env_t \<Rightarrow> 64 word \<Rightarrow> error + 64 word" where
  "load_env base env a =
     (if unat (a - base) < 1024 \<and> unat (a - base) mod 4 = 0
      then Inr (scast (env (unat (a - base) div 4)))
      else Inl Undefined_Behaviour)"

definition rv_step :: "64 word \<Rightarrow> env_t \<Rightarrow> regfile \<Rightarrow> 32 word \<Rightarrow> error + regfile" where
  "rv_step base env rf w =
     (let opcode = w AND 0x7F; funct3 = drop_bit 12 w AND 7; funct7 = drop_bit 25 w in
      if opcode = 0x37 then
        Inr (set_reg rf (rd_of w) (scast (w AND 0xFFFFF000)))
      else if opcode = 0x13 \<and> funct3 = 0 then
        Inr (set_reg rf (rd_of w) (get_reg rf (rs1_of w) + imm12_of w))
      else if opcode = 0x03 \<and> funct3 = 2 then
        (case load_env base env (get_reg rf (rs1_of w) + imm12_of w) of
           Inl e \<Rightarrow> Inl e
         | Inr x \<Rightarrow> Inr (set_reg rf (rd_of w) x))
      else if opcode = 0x33 \<and> funct3 = 0 \<and> funct7 = 0 then
        Inr (set_reg rf (rd_of w) (get_reg rf (rs1_of w) + get_reg rf (rs2_of w)))
      else if opcode = 0x33 \<and> funct3 = 0 \<and> funct7 = 1 then
        Inr (set_reg rf (rd_of w) (get_reg rf (rs1_of w) * get_reg rf (rs2_of w)))
      else Inl Undefined_Behaviour)"

text \<open>The word \<^verbatim>\<open>0x8082\<close> is \<^verbatim>\<open>c.ret\<close>.\<close>

primrec rv_run :: "64 word \<Rightarrow> env_t \<Rightarrow> regfile \<Rightarrow> 32 word list \<Rightarrow> error + int32" where
  "rv_run base env rf [] = Inl Undefined_Behaviour"
| "rv_run base env rf (w # ws) =
     (if w = 0x8082 then Inr (ucast (get_reg rf reg_a0))
      else (case rv_step base env rf w of
              Inl e \<Rightarrow> Inl e
            | Inr rf' \<Rightarrow> rv_run base env rf' ws))"

text \<open>The call \<^verbatim>\<open>((int_function_pointer) code)(env)\<close>; the other registers hold \<open>junk\<close>.\<close>

definition call_riscv :: "64 word \<Rightarrow> env_t \<Rightarrow> regfile \<Rightarrow> 32 word list \<Rightarrow> error + int32" where
  "call_riscv base env junk ws = rv_run base env (junk(reg_a0 := base)) ws"

subsection \<open>x86 (32-bit)\<close>

text \<open>
  The machine has the registers \<^verbatim>\<open>eax\<close> and \<^verbatim>\<open>ebx\<close>, a stack, and a memory of 32-bit cells
  addressed as the generated code addresses them: \<^verbatim>\<open>env[i]\<close> at \<open>env_addr + 4 * i\<close>, and the
  elements of \<^verbatim>\<open>cse_values\<close>, which start as zero.
\<close>

record x86_machine =
  eax :: "32 word"
  ebx :: "32 word"
  stack :: "32 word list"
  mem :: "32 word \<Rightarrow> 32 word"

definition of_le32 :: "8 word list \<Rightarrow> 32 word" where
  "of_le32 bs = ucast (bs ! 0) OR push_bit 8 (ucast (bs ! 1)) OR push_bit 16 (ucast (bs ! 2))
                OR push_bit 24 (ucast (bs ! 3))"

fun x86_run :: "x86_machine \<Rightarrow> 8 word list \<Rightarrow> error + int32" where
  "x86_run m [] = Inl Undefined_Behaviour"
| "x86_run m (b # bs) =
     (if b = 0xC3 then Inr (eax m)
      else if b = 0xB8 \<and> 4 \<le> length bs then x86_run (m\<lparr>eax := of_le32 bs\<rparr>) (drop 4 bs)
      else if b = 0xA1 \<and> 4 \<le> length bs then x86_run (m\<lparr>eax := mem m (of_le32 bs)\<rparr>) (drop 4 bs)
      else if b = 0xA3 \<and> 4 \<le> length bs then
        x86_run (m\<lparr>mem := (mem m)(of_le32 bs := eax m)\<rparr>) (drop 4 bs)
      else if b = 0x50 then x86_run (m\<lparr>stack := eax m # stack m\<rparr>) bs
      else if b = 0x53 then x86_run (m\<lparr>stack := ebx m # stack m\<rparr>) bs
      else if b = 0x5B \<and> stack m \<noteq> [] then
        x86_run (m\<lparr>ebx := hd (stack m), stack := tl (stack m)\<rparr>) bs
      else if b = 0x01 \<and> take 1 bs = [0xD8] then x86_run (m\<lparr>eax := eax m + ebx m\<rparr>) (drop 1 bs)
      else if b = 0x0F \<and> take 2 bs = [0xAF, 0xC3] then
        x86_run (m\<lparr>eax := eax m * ebx m\<rparr>) (drop 2 bs)
      else Inl Undefined_Behaviour)"

definition env_mem :: "layout \<Rightarrow> env_t \<Rightarrow> 32 word \<Rightarrow> 32 word" where
  "env_mem lay env a =
     (if unat (a - env_addr lay) < 1024 \<and> unat (a - env_addr lay) mod 4 = 0
      then env (unat (a - env_addr lay) div 4) else 0)"

text \<open>The call \<^verbatim>\<open>((int_function_pointer) code)()\<close>, with \<open>a\<close> and \<open>b\<close> in the two registers.\<close>

definition call_x86 :: "layout \<Rightarrow> env_t \<Rightarrow> 32 word \<Rightarrow> 32 word \<Rightarrow> 8 word list \<Rightarrow> error + int32" where
  "call_x86 lay env a b bs = x86_run \<lparr>eax = a, ebx = b, stack = [], mem = env_mem lay env\<rparr> bs"

section \<open>Edges of the built tree\<close>

text \<open>
  The nodes reachable from a root, each once, and the number of edges of the tree below the
  root that point to the node \<open>i\<close>.
\<close>

primrec reach :: "nat \<Rightarrow> node list \<Rightarrow> ast_t \<Rightarrow> nat set" where
  "reach 0 ns t = {}"
| "reach (Suc n) ns t =
     (case deref ns t of
        Inl e \<Rightarrow> {}
      | Inr p \<Rightarrow>
         insert (the_ref t)
           (if is_binop (kind p) then reach n ns (l p) \<union> reach n ns (r p) else {}))"

definition refs_in :: "node \<Rightarrow> nat \<Rightarrow> nat" where
  "refs_in p i =
     (if is_binop (kind p)
      then (if l p = Ref i then 1 else 0) + (if r p = Ref i then 1 else 0) else 0)"

definition edge_count :: "node list \<Rightarrow> ast_t \<Rightarrow> nat \<Rightarrow> nat" where
  "edge_count ns root i = (\<Sum>j \<in> reach (length ns) ns root. refs_in (ns ! j) i)"

text \<open>The pools that the parser builds for four inputs.\<close>

definition pool_2048 :: "node list" where
  "pool_2048 = [fresh RISCV INT' Null Null 2048]"


definition pool_x_times_x :: "node list" where
  "pool_x_times_x = [hit X86 (fresh X86 NAME Null Null 120), fresh X86 STAR (Ref 0) (Ref 0) 0]"

definition pool_orphan :: "variant \<Rightarrow> node list" where
  "pool_orphan v =
     [hit v (fresh v NAME Null Null 120), hit v (fresh v INT' Null Null 1),
      hit v (fresh v PLUS (Ref 0) (Ref 1) 0), fresh v NAME Null Null 121,
      fresh v PLUS (Ref 3) (Ref 1) 0, fresh v PLUS (Ref 0) (Ref 4) 0,
      fresh v STAR (Ref 5) (Ref 2) 0]"

definition lay0 :: layout where
  "lay0 = \<lparr>env_addr = 0x1000, cse_addr = 0x2000\<rparr>"

section \<open>Invariants of the RISC-V code generator\<close>

text \<open>
  The registers from \<^verbatim>\<open>next_free\<close> on are the free ones. The invariant of the allocator: the
  array keeps its size, \<^verbatim>\<open>next_free\<close> stays within it, and no free register is register 0
  (a node's \<^verbatim>\<open>reg\<close> is 0 exactly while no code has been generated for it).
\<close>

definition pool_ok :: "riscv \<Rightarrow> bool" where
  "pool_ok st =
     (length (reg_poll st) = reg_poll_size \<and> next_free st \<le> reg_poll_size \<and>
      (\<forall>i \<in> {next_free st ..< reg_poll_size}. reg_poll st ! i \<noteq> 0))"


text \<open>
  What \<^verbatim>\<open>codegen\<close> leaves alone: the shape of the pool and the field \<^verbatim>\<open>alloc\<close>; a register
  once given is not taken back; the words already emitted stay.
\<close>

definition cg_frame :: "riscv \<Rightarrow> riscv \<Rightarrow> bool" where
  "cg_frame st st' =
     (length (nodes st') = length (nodes st) \<and>
      (\<forall>i \<in> {..<length (nodes st)}.
         core (nodes st' ! i) = core (nodes st ! i) \<and> alloc (nodes st' ! i) = alloc (nodes st ! i) \<and>
         (reg (nodes st ! i) \<noteq> 0 \<longrightarrow> reg (nodes st' ! i) \<noteq> 0)) \<and>
      (\<exists>ws. code st' = code st @ ws))"


section \<open>Invariants of the x86 code generator\<close>

text \<open>
  What \<^verbatim>\<open>codegen\<close> of the x86 file leaves alone: the shape of the pool and the field
  \<^verbatim>\<open>shared\<close>; a node that has its element of \<^verbatim>\<open>cse_values\<close> keeps one; the bytes already
  emitted stay.
\<close>

definition x_frame :: "x86 \<Rightarrow> x86 \<Rightarrow> bool" where
  "x_frame st st' =
     (length (x_nodes st') = length (x_nodes st) \<and>
      (\<forall>i \<in> {..<length (x_nodes st)}.
         core (x_nodes st' ! i) = core (x_nodes st ! i) \<and>
         shared (x_nodes st' ! i) = shared (x_nodes st ! i) \<and>
         (saved (x_nodes st ! i) \<noteq> None \<longrightarrow> saved (x_nodes st' ! i) \<noteq> None)) \<and>
      (\<exists>bs. x_code st' = x_code st @ bs))"



text \<open>\<^bigskip>\<close>
(*DEFS-END*)

section \<open>Properties of pools\<close>

lemma extends_refl [simp]: "extends ns ns"
  by (simp add: extends_def)

lemma extends_trans: "extends a b \<Longrightarrow> extends b c \<Longrightarrow> extends a c"
  by (auto simp: extends_def)

lemma extends_append [simp]: "extends ns (ns @ [p])"
  by (simp add: extends_def nth_append)

lemma core_hit [simp]: "core (hit v p) = core p"
  by (simp add: hit_def core_def split: variant.splits)

lemma extends_hit: "extends ns (ns[i := hit v (ns ! i)])"
  by (cases "i < length ns") (auto simp: extends_def nth_list_update)


lemma is_ref_below_mono: "is_ref_below m p \<Longrightarrow> m \<le> n \<Longrightarrow> is_ref_below n p"
  by (auto simp: is_ref_below_def split: ast_t.splits)

lemma is_ref_below_Ref [simp]: "is_ref_below n (Ref i) = (i < n)"
  by (simp add: is_ref_below_def)

lemma the_ref_Ref [simp]: "the_ref (Ref i) = i"
  by (simp add: the_ref_def)

lemma is_ref_belowE: "is_ref_below n p \<Longrightarrow> (\<And>i. p = Ref i \<Longrightarrow> i < n \<Longrightarrow> P) \<Longrightarrow> P"
  by (auto simp: is_ref_below_def split: ast_t.splits)

lemma deref_Inr: "deref ns p = Inr x \<longleftrightarrow> is_ref_below (length ns) p \<and> x = ns ! the_ref p"
  by (auto simp: deref_def is_ref_below_def the_ref_def split: ast_t.splits)

lemma cse_Some:
  "cse ns k a b c = Some p \<Longrightarrow>
     p < length ns \<and> kind (ns ! p) = k \<and> l (ns ! p) = a \<and> r (ns ! p) = b \<and> intValue (ns ! p) = c"
  by (induction ns arbitrary: p) (auto split: if_splits)


lemma wf_pool_extends:
  "wf_pool ns \<Longrightarrow> extends ns ns' \<Longrightarrow> length ns' = length ns \<Longrightarrow> wf_pool ns'"
  by (auto simp: wf_pool_def extends_def wf_node_def core_def)

lemma wf_pool_hit: "wf_pool ns \<Longrightarrow> wf_pool (ns[i := hit v (ns ! i)])"
  by (rule wf_pool_extends [OF _ extends_hit]) simp_all

lemma wf_pool_append:
  "wf_pool ns \<Longrightarrow> wf_node (length ns) p \<Longrightarrow> wf_pool (ns @ [p])"
  by (auto simp: wf_pool_def nth_append less_Suc_eq)

lemma STAR_neq [simp]: "STAR \<noteq> PLUS" "PLUS \<noteq> STAR" "STAR \<noteq> INT'" "PLUS \<noteq> INT'"
  "STAR \<noteq> NAME" "PLUS \<noteq> NAME" "INT' \<noteq> STAR" "INT' \<noteq> PLUS" "NAME \<noteq> STAR" "NAME \<noteq> PLUS"
  by (simp_all add: STAR_def PLUS_def)





lemma wf_children:
  "wf_pool ns \<Longrightarrow> i < length ns \<Longrightarrow> is_binop (kind (ns ! i)) \<Longrightarrow>
   is_ref_below i (l (ns ! i)) \<and> is_ref_below i (r (ns ! i))"
  by (simp add: wf_pool_def wf_node_def)

section \<open>The node builder preserves values\<close>










lemma sem_simps [simp]:
  "sem env ns PLUS a b c = eval env ns (the_ref a) + eval env ns (the_ref b)"
  "sem env ns STAR a b c = eval env ns (the_ref a) * eval env ns (the_ref b)"
  "sem env ns INT' a b c = c"
  by (simp_all add: sem_def)






section \<open>Unfolding one call of the node builder\<close>

lemma mk_leaf:
  "\<not> (k = STAR \<or> k = PLUS) \<Longrightarrow>
   mk (Suc n) v ns k a b c =
     (case cse ns k a b c of
        Some p \<Rightarrow> Inr (Ref p, ns[p := hit v (ns ! p)])
      | None \<Rightarrow> append_node v ns k a b c)"
  by simp

lemma mk_hit:
  assumes "k = STAR \<or> k = PLUS" and "is_ref_below (length ns) a"
    and "a1 = (if kind (ns ! the_ref a) = INT' then b else a)"
    and "b1 = (if kind (ns ! the_ref a) = INT' then a else b)"
    and "cse ns k a1 b1 c = Some q"
  shows "mk (Suc n) v ns k a b c = Inr (Ref q, ns[q := hit v (ns ! q)])"
  using assms by (auto simp: deref_def Let_def elim!: is_ref_belowE)

lemma mk_miss:
  assumes K: "k = STAR \<or> k = PLUS" and A: "is_ref_below (length ns) a"
    and a1: "a1 = (if kind (ns ! the_ref a) = INT' then b else a)"
    and b1: "b1 = (if kind (ns ! the_ref a) = INT' then a else b)"
    and C: "cse ns k a1 b1 c = None"
    and B: "is_ref_below (length ns) b"
    and na: "na = ns ! the_ref a1" and nb: "nb = ns ! the_ref b1"
  shows "mk (Suc n) v ns k a b c =
         (if k = PLUS \<and> kind na = INT' \<and> kind nb = INT' then
            mk n v ns INT' Null Null (intValue na + intValue nb)
          else if k = STAR \<and> kind na = INT' \<and> kind nb = INT' then
            mk n v ns INT' Null Null (intValue na * intValue nb)
          else if k = STAR \<and> kind nb = INT' \<and> intValue nb = 0 then
            mk n v ns INT' Null Null 0
          else if k = STAR \<and> kind nb = INT' \<and> intValue nb = 1 then Inr (a1, ns)
          else if k = PLUS \<and> kind nb = INT' \<and> intValue nb = 0 then Inr (a1, ns)
          else if k = PLUS \<and> b1 = a1 then
            (case mk n v ns INT' Null Null 2 of
               Inl e \<Rightarrow> Inl e
             | Inr (two, ns1) \<Rightarrow> mk n v ns1 STAR two a1 0)
          else if k = PLUS \<and> kind na = PLUS then
            (case deref ns (r na) of
               Inl e \<Rightarrow> Inl e
             | Inr nar \<Rightarrow>
                if kind nar = INT' then
                  (case mk n v ns PLUS b1 (r na) 0 of
                     Inl e \<Rightarrow> Inl e
                   | Inr (t, ns1) \<Rightarrow> mk n v ns1 PLUS (l na) t 0)
                else append_node v ns k a1 b1 c)
          else if k = STAR \<and> kind na = STAR then
            (case deref ns (r na) of
               Inl e \<Rightarrow> Inl e
             | Inr nar \<Rightarrow>
                if kind nar = INT' then
                  (case mk n v ns STAR b1 (r na) 0 of
                     Inl e \<Rightarrow> Inl e
                   | Inr (t, ns1) \<Rightarrow> mk n v ns1 STAR (l na) t 0)
                else append_node v ns k a1 b1 c)
          else if k = STAR \<and> kind nb = INT' \<and> kind na = PLUS then
            (case deref ns (r na) of
               Inl e \<Rightarrow> Inl e
             | Inr nar \<Rightarrow>
                if kind nar = INT' then
                  (case mk n v ns STAR (l na) b1 0 of
                     Inl e \<Rightarrow> Inl e
                   | Inr (t1, ns1) \<Rightarrow>
                      (case mk n v ns1 STAR (r na) b1 0 of
                         Inl e \<Rightarrow> Inl e
                       | Inr (t2, ns2) \<Rightarrow> mk n v ns2 PLUS t1 t2 0))
                else append_node v ns k a1 b1 c)
          else append_node v ns k a1 b1 c)"
proof -
  have d0: "deref ns a = Inr (ns ! the_ref a)" using A by (simp add: deref_Inr)
  have da: "deref ns a1 = Inr na" and db: "deref ns b1 = Inr nb"
    using A B by (simp_all add: deref_Inr a1 b1 na nb)
  show ?thesis
    by (simp only: mk.simps Let_def K d0 sum.case if_True a1 [symmetric] b1 [symmetric] C
        option.case da db)
qed

lemma mk_SucE [consumes 1, case_names leaf_hit leaf_new hit fold_add fold_mul mul_zero mul_one
    add_zero double assoc_add assoc_mul distrib new]:
  assumes run: "mk (Suc n) v ns k a b c = Inr (p, ns')"
  obtains
    (leaf_hit) q where "\<not> is_binop k" "cse ns k a b c = Some q" "p = Ref q"
      "ns' = ns[q := hit v (ns ! q)]"
  | (leaf_new) "\<not> is_binop k" "cse ns k a b c = None" "append_node v ns k a b c = Inr (p, ns')"
  | (hit) a1 b1 q where "is_binop k" "is_ref_below (length ns) a" "canon ns a b = (a1, b1)"
      "cse ns k a1 b1 c = Some q" "p = Ref q" "ns' = ns[q := hit v (ns ! q)]"
  | (fold_add) a1 b1 where "k = PLUS" "canon ns a b = (a1, b1)"
      "is_ref_below (length ns) a1" "is_ref_below (length ns) b1"
      "kind (ns ! the_ref a1) = INT'" "kind (ns ! the_ref b1) = INT'"
      "mk n v ns INT' Null Null (intValue (ns ! the_ref a1) + intValue (ns ! the_ref b1)) = Inr (p, ns')"
  | (fold_mul) a1 b1 where "k = STAR" "canon ns a b = (a1, b1)"
      "is_ref_below (length ns) a1" "is_ref_below (length ns) b1"
      "kind (ns ! the_ref a1) = INT'" "kind (ns ! the_ref b1) = INT'"
      "mk n v ns INT' Null Null (intValue (ns ! the_ref a1) * intValue (ns ! the_ref b1)) = Inr (p, ns')"
  | (mul_zero) a1 b1 where "k = STAR" "canon ns a b = (a1, b1)"
      "is_ref_below (length ns) a1" "is_ref_below (length ns) b1"
      "kind (ns ! the_ref b1) = INT'" "intValue (ns ! the_ref b1) = 0"
      "mk n v ns INT' Null Null 0 = Inr (p, ns')"
  | (mul_one) a1 b1 where "k = STAR" "canon ns a b = (a1, b1)"
      "is_ref_below (length ns) a1" "is_ref_below (length ns) b1"
      "kind (ns ! the_ref b1) = INT'" "intValue (ns ! the_ref b1) = 1" "p = a1" "ns' = ns"
  | (add_zero) a1 b1 where "k = PLUS" "canon ns a b = (a1, b1)"
      "is_ref_below (length ns) a1" "is_ref_below (length ns) b1"
      "kind (ns ! the_ref b1) = INT'" "intValue (ns ! the_ref b1) = 0" "p = a1" "ns' = ns"
  | (double) a1 two ns1 where "k = PLUS" "canon ns a b = (a1, a1)"
      "is_ref_below (length ns) a1" "kind (ns ! the_ref a1) \<noteq> INT'"
      "mk n v ns INT' Null Null 2 = Inr (two, ns1)" "mk n v ns1 STAR two a1 0 = Inr (p, ns')"
  | (assoc_add) a1 b1 t ns1 where "k = PLUS" "canon ns a b = (a1, b1)"
      "is_ref_below (length ns) a1" "is_ref_below (length ns) b1"
      "kind (ns ! the_ref a1) = PLUS" "is_ref_below (length ns) (r (ns ! the_ref a1))"
      "kind (ns ! the_ref (r (ns ! the_ref a1))) = INT'"
      "mk n v ns PLUS b1 (r (ns ! the_ref a1)) 0 = Inr (t, ns1)"
      "mk n v ns1 PLUS (l (ns ! the_ref a1)) t 0 = Inr (p, ns')"
  | (assoc_mul) a1 b1 t ns1 where "k = STAR" "canon ns a b = (a1, b1)"
      "is_ref_below (length ns) a1" "is_ref_below (length ns) b1"
      "kind (ns ! the_ref a1) = STAR" "is_ref_below (length ns) (r (ns ! the_ref a1))"
      "kind (ns ! the_ref (r (ns ! the_ref a1))) = INT'"
      "mk n v ns STAR b1 (r (ns ! the_ref a1)) 0 = Inr (t, ns1)"
      "mk n v ns1 STAR (l (ns ! the_ref a1)) t 0 = Inr (p, ns')"
  | (distrib) a1 b1 t1 ns1 t2 ns2 where "k = STAR" "canon ns a b = (a1, b1)"
      "is_ref_below (length ns) a1" "is_ref_below (length ns) b1"
      "kind (ns ! the_ref a1) = PLUS" "kind (ns ! the_ref b1) = INT'"
      "is_ref_below (length ns) (r (ns ! the_ref a1))"
      "kind (ns ! the_ref (r (ns ! the_ref a1))) = INT'"
      "mk n v ns STAR (l (ns ! the_ref a1)) b1 0 = Inr (t1, ns1)"
      "mk n v ns1 STAR (r (ns ! the_ref a1)) b1 0 = Inr (t2, ns2)"
      "mk n v ns2 PLUS t1 t2 0 = Inr (p, ns')"
  | (new) a1 b1 where "is_binop k" "canon ns a b = (a1, b1)"
      "is_ref_below (length ns) a1" "is_ref_below (length ns) b1"
      "cse ns k a1 b1 c = None" "kind (ns ! the_ref a1) \<noteq> INT'" "\<not> fires ns k a1 b1"
      "append_node v ns k a1 b1 c = Inr (p, ns')"
proof (cases "k = STAR \<or> k = PLUS")
  case False
  then have nb: "\<not> is_binop k" by (simp add: is_binop_def)
  show thesis
  proof (cases "cse ns k a b c")
    case None
    with run False nb leaf_new show thesis by simp
  next
    case (Some q)
    with run False nb leaf_hit [of q] show thesis by simp
  qed
next
  case True
  then have bin: "is_binop k" by (simp add: is_binop_def)
  from run True have va: "is_ref_below (length ns) a"
    by (cases "deref ns a") (auto simp: deref_Inr)
  obtain a1 b1 where cn: "canon ns a b = (a1, b1)" by (cases "canon ns a b")
  then have a1: "a1 = (if kind (ns ! the_ref a) = INT' then b else a)"
    and b1: "b1 = (if kind (ns ! the_ref a) = INT' then a else b)"
    by (auto simp: canon_def split: if_splits)
  show thesis
  proof (cases "cse ns k a1 b1 c")
    case (Some q)
    from run mk_hit [OF True va a1 b1 Some] have "p = Ref q" "ns' = ns[q := hit v (ns ! q)]"
      by simp_all
    with hit [OF bin va cn Some] show thesis by simp
  next
    case None
    have d0: "deref ns a = Inr (ns ! the_ref a)" using va by (simp add: deref_Inr)
    from run True d0 None have "\<exists>x. deref ns a1 = Inr x"
      by (cases "deref ns a1") (auto simp: a1 b1 Let_def)
    then have va1: "is_ref_below (length ns) a1" by (auto simp: deref_Inr)
    then have da: "deref ns a1 = Inr (ns ! the_ref a1)" by (simp add: deref_Inr)
    from run True d0 None da have "\<exists>x. deref ns b1 = Inr x"
      by (cases "deref ns b1") (auto simp: a1 b1 Let_def)
    then have vb1: "is_ref_below (length ns) b1" by (auto simp: deref_Inr)
    have vb: "is_ref_below (length ns) b" using va1 vb1 by (auto simp: a1 b1 split: if_splits)
    define na where "na = ns ! the_ref a1"
    define nb where "nb = ns ! the_ref b1"
    note body = run [unfolded mk_miss [OF True va a1 b1 None vb na_def nb_def]]
    note f = cn va1 vb1
    have can: "kind na = INT' \<Longrightarrow> kind nb = INT'"
      by (auto simp: na_def nb_def a1 b1 split: if_splits)
    show thesis
    proof (cases "kind na = INT'")
      case aI: True
      with can have bI: "kind nb = INT'" by simp
      from True show thesis
      proof
        assume k: "k = STAR"
        from body aI bI k fold_mul [OF k f] show thesis by (simp add: na_def nb_def)
      next
        assume k: "k = PLUS"
        from body aI bI k fold_add [OF k f] show thesis by (simp add: na_def nb_def)
      qed
    next
      case aN: False
      have rcase: "\<And>X Y. (case deref ns (r na) of Inl e \<Rightarrow> Inl e
            | Inr nar \<Rightarrow> if kind nar = INT' then X else Y) = Inr (p, ns') \<Longrightarrow>
          is_ref_below (length ns) (r na) \<and>
          (if kind (ns ! the_ref (r na)) = INT' then X = Inr (p, ns') else Y = Inr (p, ns'))"
        by (auto simp: deref_Inr split: sum.splits if_splits)
      have nw: "\<not> fires ns k a1 b1 \<Longrightarrow> append_node v ns k a1 b1 c = Inr (p, ns') \<Longrightarrow> thesis"
        using new [OF bin f None] aN by (simp add: na_def)
      from True show thesis
      proof
        assume k: "k = STAR"
        show thesis
        proof (cases "kind nb = INT' \<and> intValue nb = 0")
          case True
          with body aN k have "mk n v ns INT' Null Null 0 = Inr (p, ns')" by auto
          with True show thesis by (intro mul_zero [OF k f]) (simp_all add: nb_def)
        next
          case z: False
          show thesis
          proof (cases "kind nb = INT' \<and> intValue nb = 1")
            case True
            with body aN k z have "p = a1" "ns' = ns" by auto
            with True show thesis by (intro mul_one [OF k f]) (simp_all add: nb_def)
          next
            case o: False
            show thesis
            proof (cases "kind na = STAR")
              case aS: True
              from body aN k z o aS have "(case deref ns (r na) of Inl e \<Rightarrow> Inl e
                 | Inr nar \<Rightarrow> if kind nar = INT' then
                     (case mk n v ns STAR b1 (r na) 0 of Inl e \<Rightarrow> Inl e
                      | Inr (t, ns1) \<Rightarrow> mk n v ns1 STAR (l na) t 0)
                   else append_node v ns k a1 b1 c) = Inr (p, ns')"
                by simp
              note rc = rcase [OF this]
              show thesis
              proof (cases "kind (ns ! the_ref (r na)) = INT'")
                case True
                with rc obtain t ns1 where "mk n v ns STAR b1 (r na) 0 = Inr (t, ns1)"
                  "mk n v ns1 STAR (l na) t 0 = Inr (p, ns')"
                  by (auto split: sum.splits)
                with assoc_mul [OF k f, of t ns1] aS rc True show thesis by (simp add: na_def)
              next
                case False
                with rc k z o aS aN have "\<not> fires ns k a1 b1"
                  by (auto simp: fires_def na_def nb_def Let_def)
                with rc False show thesis by (auto intro: nw)
              qed
            next
              case aS: False
              show thesis
              proof (cases "kind nb = INT' \<and> kind na = PLUS")
                case d: True
                from body aN k z o aS d have "(case deref ns (r na) of Inl e \<Rightarrow> Inl e
                   | Inr nar \<Rightarrow> if kind nar = INT' then
                       (case mk n v ns STAR (l na) b1 0 of Inl e \<Rightarrow> Inl e
                        | Inr (t1, ns1) \<Rightarrow>
                           (case mk n v ns1 STAR (r na) b1 0 of Inl e \<Rightarrow> Inl e
                            | Inr (t2, ns2) \<Rightarrow> mk n v ns2 PLUS t1 t2 0))
                     else append_node v ns k a1 b1 c) = Inr (p, ns')"
                  by simp
                note rc = rcase [OF this]
                show thesis
                proof (cases "kind (ns ! the_ref (r na)) = INT'")
                  case True
                  with rc obtain t1 ns1 t2 ns2 where "mk n v ns STAR (l na) b1 0 = Inr (t1, ns1)"
                    "mk n v ns1 STAR (r na) b1 0 = Inr (t2, ns2)"
                    "mk n v ns2 PLUS t1 t2 0 = Inr (p, ns')"
                    by (auto split: sum.splits)
                  with distrib [OF k f, of t1 ns1 t2 ns2] d rc True show thesis
                    by (simp add: na_def nb_def)
                next
                  case False
                  with rc k z o aS aN d have "\<not> fires ns k a1 b1"
                    by (auto simp: fires_def na_def nb_def Let_def)
                  with rc False show thesis by (auto intro: nw)
                qed
              next
                case d: False
                with k z o aS aN have "\<not> fires ns k a1 b1"
                  by (auto simp: fires_def na_def nb_def Let_def)
                moreover from body aN k z o aS d
                have "append_node v ns k a1 b1 c = Inr (p, ns')" by auto
                ultimately show thesis by (rule nw)
              qed
            qed
          qed
        qed
      next
        assume k: "k = PLUS"
        show thesis
        proof (cases "kind nb = INT' \<and> intValue nb = 0")
          case True
          with body aN k have "p = a1" "ns' = ns" by auto
          with True show thesis by (intro add_zero [OF k f]) (simp_all add: nb_def)
        next
          case z: False
          show thesis
          proof (cases "b1 = a1")
            case e: True
            from body aN k z e obtain two ns1 where "mk n v ns INT' Null Null 2 = Inr (two, ns1)"
              "mk n v ns1 STAR two a1 0 = Inr (p, ns')"
              by (auto split: sum.splits)
            with double [OF k _ va1, of two ns1] cn e aN show thesis by (simp add: na_def)
          next
            case e: False
            show thesis
            proof (cases "kind na = PLUS")
              case aP: True
              from body aN k z e aP have "(case deref ns (r na) of Inl e \<Rightarrow> Inl e
                 | Inr nar \<Rightarrow> if kind nar = INT' then
                     (case mk n v ns PLUS b1 (r na) 0 of Inl e \<Rightarrow> Inl e
                      | Inr (t, ns1) \<Rightarrow> mk n v ns1 PLUS (l na) t 0)
                   else append_node v ns k a1 b1 c) = Inr (p, ns')"
                by simp
              note rc = rcase [OF this]
              show thesis
              proof (cases "kind (ns ! the_ref (r na)) = INT'")
                case True
                with rc obtain t ns1 where "mk n v ns PLUS b1 (r na) 0 = Inr (t, ns1)"
                  "mk n v ns1 PLUS (l na) t 0 = Inr (p, ns')"
                  by (auto split: sum.splits)
                with assoc_add [OF k f, of t ns1] aP rc True show thesis by (simp add: na_def)
              next
                case False
                with rc k z e aP aN have "\<not> fires ns k a1 b1"
                  by (auto simp: fires_def na_def nb_def Let_def)
                with rc False show thesis by (auto intro: nw)
              qed
            next
              case aP: False
              with k z e aN have "\<not> fires ns k a1 b1"
                by (auto simp: fires_def na_def nb_def Let_def)
              moreover from body aN k z e aP
              have "append_node v ns k a1 b1 c = Inr (p, ns')" by auto
              ultimately show thesis by (rule nw)
            qed
          qed
        qed
      qed
    qed
  qed
qed

lemma cse_None: "cse ns k a b c = None \<longleftrightarrow> (k, a, b, c) \<notin> set (map core ns)"
  by (induction ns) (auto simp: core_def)

lemma cse_distinct:
  "distinct (map core ns) \<Longrightarrow> q < length ns \<Longrightarrow> core (ns ! q) = (k, a, b, c) \<Longrightarrow>
   cse ns k a b c = Some q"
proof (induction ns arbitrary: q)
  case Nil
  then show ?case by simp
next
  case (Cons x xs)
  show ?case
  proof (cases q)
    case 0
    with Cons.prems show ?thesis by (simp add: core_def)
  next
    case (Suc q')
    with Cons.prems have q': "q' < length xs" and c: "core (xs ! q') = (k, a, b, c)" by simp_all
    then have "(k, a, b, c) \<in> set (map core xs)" by (metis length_map nth_map nth_mem)
    with Cons.prems have "core x \<noteq> (k, a, b, c)" by auto
    then have "\<not> (kind x = k \<and> l x = a \<and> r x = b \<and> intValue x = c)" by (auto simp: core_def)
    with Cons.IH [OF _ q' c] Cons.prems Suc show ?thesis by simp
  qed
qed

lemma core_fields:
  "core x = core y \<Longrightarrow> kind x = kind y \<and> l x = l y \<and> r x = r y \<and> intValue x = intValue y"
  by (simp add: core_def)

lemma extends_fields:
  "extends ns ns' \<Longrightarrow> is_ref_below (length ns) x \<Longrightarrow>
   kind (ns' ! the_ref x) = kind (ns ! the_ref x) \<and> l (ns' ! the_ref x) = l (ns ! the_ref x) \<and>
   r (ns' ! the_ref x) = r (ns ! the_ref x) \<and> intValue (ns' ! the_ref x) = intValue (ns ! the_ref x)"
  by (erule is_ref_belowE) (auto simp: extends_def dest!: core_fields)

lemma fires_extends:
  assumes e: "extends ns ns'" and a: "is_ref_below (length ns) a" and b: "is_ref_below (length ns) b"
    and ra: "is_binop (kind (ns ! the_ref a)) \<Longrightarrow> is_ref_below (length ns) (r (ns ! the_ref a))"
  shows "fires ns' k a b = fires ns k a b"
proof -
  note fa = extends_fields [OF e a] and fb = extends_fields [OF e b]
  have fr: "is_binop (kind (ns ! the_ref a)) \<Longrightarrow>
      kind (ns' ! the_ref (r (ns ! the_ref a))) = kind (ns ! the_ref (r (ns ! the_ref a)))"
    using extends_fields [OF e ra] by simp
  show ?thesis
  proof (cases "is_binop (kind (ns ! the_ref a))")
    case True
    then show ?thesis by (simp add: fires_def Let_def fa fb fr)
  next
    case False
    then have "kind (ns ! the_ref a) \<noteq> PLUS" "kind (ns ! the_ref a) \<noteq> STAR"
      by (auto simp: is_binop_def)
    then show ?thesis by (simp add: fires_def Let_def fa fb)
  qed
qed

lemma nf_node_extends:
  assumes e: "extends ns ns'" and wf: "wf_pool ns" and i: "i < length ns"
  shows "nf_node ns' (ns' ! i) = nf_node ns (ns ! i)"
proof -
  have c: "kind (ns' ! i) = kind (ns ! i)" "l (ns' ! i) = l (ns ! i)" "r (ns' ! i) = r (ns ! i)"
    using extends_fields [OF e, of "Ref i"] i by simp_all
  show ?thesis
  proof (cases "is_binop (kind (ns ! i))")
    case False
    then show ?thesis by (simp add: nf_node_def c)
  next
    case True
    from wf_children [OF wf i True] i
    have a: "is_ref_below (length ns) (l (ns ! i))" and b: "is_ref_below (length ns) (r (ns ! i))"
      by (auto intro: is_ref_below_mono)
    have ra: "is_binop (kind (ns ! the_ref (l (ns ! i)))) \<Longrightarrow>
        is_ref_below (length ns) (r (ns ! the_ref (l (ns ! i))))"
      using a wf_children [OF wf, of "the_ref (l (ns ! i))"]
      by (auto elim!: is_ref_belowE intro: is_ref_below_mono)
    show ?thesis
      using True fires_extends [OF e a b ra] extends_fields [OF e a]
      by (simp add: nf_node_def c)
  qed
qed

lemma extends_map_core:
  "extends ns ns' \<Longrightarrow> length ns' = length ns \<Longrightarrow> map core ns' = map core ns"
  by (auto simp: extends_def intro: nth_equalityI)

lemma pool_inv_hit:
  assumes inv: "pool_inv v ns" and q: "q < length ns"
  shows "pool_inv v (ns[q := hit v (ns ! q)])"
proof -
  let ?ns' = "ns[q := hit v (ns ! q)]"
  have e: "extends ns ?ns'" by (rule extends_hit)
  from inv have wf: "wf_pool ns" by (simp add: pool_inv_def)
  have 1: "wf_pool ?ns'" by (rule wf_pool_hit [OF wf])
  have 2: "distinct (map core ?ns')"
    using inv extends_map_core [OF e] by (simp add: pool_inv_def)
  have 3: "\<forall>i \<in> {..<length ?ns'}. nf_node ?ns' (?ns' ! i)"
    using inv nf_node_extends [OF e wf] by (simp add: pool_inv_def)
  have 4: "v = RISCV \<longrightarrow> (\<forall>i \<in> {..<length ?ns'}. 1 \<le> shared (?ns' ! i))"
  proof (intro impI ballI)
    fix i assume v: "v = RISCV" and "i \<in> {..<length ?ns'}"
    then have i: "i < length ns" by simp
    from inv v have "\<forall>i \<in> {..<length ns}. 1 \<le> shared (ns ! i)"
      unfolding pool_inv_def by blast
    with i have s1: "1 \<le> shared (ns ! i)" by simp
    have "shared (hit RISCV (ns ! i)) = shared (ns ! i) + 1" by (simp add: hit_def)
    with s1 have s2: "1 \<le> shared (hit RISCV (ns ! i))" by simp
    show "1 \<le> shared (?ns' ! i)"
    proof (cases "i = q")
      case True
      with s2 q v show ?thesis by simp
    next
      case False
      with s1 show ?thesis by simp
    qed
  qed
  show ?thesis unfolding pool_inv_def by (intro conjI 1 2 3 4)
qed

lemma pool_inv_append:
  assumes inv: "pool_inv v ns" and c: "cse ns k a b c = None"
    and wfn: "wf_node (length ns) (fresh v k a b c)"
    and nf: "nf_node ns (fresh v k a b c)"
  shows "pool_inv v (ns @ [fresh v k a b c])"
proof -
  let ?p = "fresh v k a b c"
  let ?ns' = "ns @ [?p]"
  have e: "extends ns ?ns'" by simp
  from inv have wf: "wf_pool ns" by (simp add: pool_inv_def)
  have 1: "wf_pool ?ns'" by (rule wf_pool_append [OF wf wfn])
  have cp: "core ?p = (k, a, b, c)" by (simp add: core_def fresh_def)
  have 2: "distinct (map core ?ns')"
    using inv c by (simp add: pool_inv_def cse_None cp)
  have f: "kind ?p = k" "l ?p = a" "r ?p = b" by (simp_all add: fresh_def)
  have new: "nf_node ?ns' ?p"
  proof (cases "is_binop k")
    case False
    with nf show ?thesis by (simp add: nf_node_def fresh_def)
  next
    case True
    with wfn have a: "is_ref_below (length ns) a" and b: "is_ref_below (length ns) b"
      by (simp_all add: wf_node_def f)
    have ra: "is_binop (kind (ns ! the_ref a)) \<Longrightarrow> is_ref_below (length ns) (r (ns ! the_ref a))"
      using a wf_children [OF wf, of "the_ref a"]
      by (auto elim!: is_ref_belowE intro: is_ref_below_mono)
    show ?thesis
      using True nf fires_extends [OF e a b ra] extends_fields [OF e a]
      by (simp add: nf_node_def f)
  qed
  have 3: "\<forall>i \<in> {..<length ?ns'}. nf_node ?ns' (?ns' ! i)"
  proof
    fix i assume "i \<in> {..<length ?ns'}"
    then consider "i < length ns" | "i = length ns" by force
    then show "nf_node ?ns' (?ns' ! i)"
    proof cases
      case 1
      with inv nf_node_extends [OF e wf 1] show ?thesis by (simp add: pool_inv_def)
    next
      case 2
      with new show ?thesis by simp
    qed
  qed
  have 4: "v = RISCV \<longrightarrow> (\<forall>i \<in> {..<length ?ns'}. 1 \<le> shared (?ns' ! i))"
    using inv by (auto simp: pool_inv_def nth_append fresh_def less_Suc_eq)
  show ?thesis unfolding pool_inv_def by (intro conjI 1 2 3 4)
qed

lemma proper_INT [simp]: "proper INT' Null Null c"
  by (simp add: proper_def is_binop_def)

lemma proper_binop [simp]: "proper PLUS a b 0" "proper STAR a b 0"
  by (simp_all add: proper_def is_binop_def)

lemma pool_inv_wf: "pool_inv v ns \<Longrightarrow> wf_pool ns"
  by (simp add: pool_inv_def)

lemma mk_inv:
  "pool_inv v ns \<Longrightarrow> proper k a b c \<Longrightarrow> mk n v ns k a b c = Inr (p, ns') \<Longrightarrow>
   pool_inv v ns' \<and> extends ns ns' \<and> is_ref_below (length ns') p"
proof (induction n arbitrary: ns k a b c p ns')
  case 0
  then show ?case by simp
next
  case (Suc n)
  note inv = Suc.prems(1) and pr = Suc.prems(2)
  note wf = pool_inv_wf [OF inv]
  have same: "\<And>x. is_ref_below (length ns) x \<Longrightarrow> pool_inv v ns \<and> extends ns ns \<and> is_ref_below (length ns) x"
    using inv by simp
  have appI: "\<And>a1 b1. append_node v ns k a1 b1 c = Inr (p, ns') \<Longrightarrow> cse ns k a1 b1 c = None \<Longrightarrow>
      wf_node (length ns) (fresh v k a1 b1 c) \<Longrightarrow> nf_node ns (fresh v k a1 b1 c) \<Longrightarrow> ?case"
    using pool_inv_append [OF inv] by (auto simp: append_node_def split: if_splits)
  have hitI: "\<And>q a1 b1. cse ns k a1 b1 c = Some q \<Longrightarrow> p = Ref q \<Longrightarrow>
      ns' = ns[q := hit v (ns ! q)] \<Longrightarrow> ?case"
    using pool_inv_hit [OF inv] extends_hit by (auto dest!: cse_Some)
  from Suc.prems(3) show ?case
  proof (cases rule: mk_SucE)
    case (leaf_hit q)
    then show ?thesis by (intro hitI)
  next
    case leaf_new
    with pr show ?thesis
      by (intro appI [of a b]) (simp_all add: wf_node_def nf_node_def fresh_def proper_def)
  next
    case (hit a1 b1 q)
    then show ?thesis by (intro hitI)
  next
    case (fold_add a1 b1)
    from Suc.IH [OF inv _ fold_add(7)] show ?thesis by simp
  next
    case (fold_mul a1 b1)
    from Suc.IH [OF inv _ fold_mul(7)] show ?thesis by simp
  next
    case (mul_zero a1 b1)
    from Suc.IH [OF inv _ mul_zero(7)] show ?thesis by simp
  next
    case (mul_one a1 b1)
    with same show ?thesis by simp
  next
    case (add_zero a1 b1)
    with same show ?thesis by simp
  next
    case (double a1 two ns1)
    from Suc.IH [OF inv _ double(5)] have 1: "pool_inv v ns1" "extends ns ns1" by simp_all
    from Suc.IH [OF 1(1) _ double(6)] 1 show ?thesis by (auto intro: extends_trans)
  next
    case (assoc_add a1 b1 t ns1)
    from Suc.IH [OF inv _ assoc_add(8)] have 1: "pool_inv v ns1" "extends ns ns1" by simp_all
    from Suc.IH [OF 1(1) _ assoc_add(9)] 1 show ?thesis by (auto intro: extends_trans)
  next
    case (assoc_mul a1 b1 t ns1)
    from Suc.IH [OF inv _ assoc_mul(8)] have 1: "pool_inv v ns1" "extends ns ns1" by simp_all
    from Suc.IH [OF 1(1) _ assoc_mul(9)] 1 show ?thesis by (auto intro: extends_trans)
  next
    case (distrib a1 b1 t1 ns1 t2 ns2)
    from Suc.IH [OF inv _ distrib(9)] have 1: "pool_inv v ns1" "extends ns ns1" by simp_all
    from Suc.IH [OF 1(1) _ distrib(10)] have 2: "pool_inv v ns2" "extends ns1 ns2" by simp_all
    from Suc.IH [OF 2(1) _ distrib(11)] 1 2 show ?thesis by (auto intro: extends_trans)
  next
    case (new a1 b1)
    then show ?thesis
      by (intro appI [of a1 b1]) (simp_all add: wf_node_def nf_node_def fresh_def)
  qed
qed

lemma cse_nf_None:
  assumes inv: "pool_inv v ns" and k: "is_binop k"
    and red: "kind (ns ! the_ref a1) = INT' \<or> fires ns k a1 b1"
  shows "cse ns k a1 b1 c = None"
proof (cases "cse ns k a1 b1 c")
  case None
  then show ?thesis .
next
  case (Some q)
  from cse_Some [OF Some] have q: "q < length ns" and f: "kind (ns ! q) = k" "l (ns ! q) = a1"
    "r (ns ! q) = b1" by auto
  from inv q have "nf_node ns (ns ! q)" by (simp add: pool_inv_def)
  with k f red show ?thesis by (auto simp: nf_node_def)
qed

lemma leaf_core:
  assumes inv: "pool_inv v ns" and i: "i < length ns" and k: "kind (ns ! i) = INT'"
  shows "core (ns ! i) = (INT', Null, Null, intValue (ns ! i))"
proof -
  from inv i have "nf_node ns (ns ! i)" by (simp add: pool_inv_def)
  with k show ?thesis by (simp add: nf_node_def core_def is_binop_def)
qed

lemma mk_INT_existing:
  assumes inv: "pool_inv v ns" and i: "i < length ns" and k: "kind (ns ! i) = INT'"
    and c: "intValue (ns ! i) = c"
  shows "mk (Suc n) v ns INT' Null Null c = Inr (Ref i, ns[i := hit v (ns ! i)])"
proof -
  from inv have d: "distinct (map core ns)" by (simp add: pool_inv_def)
  from cse_distinct [OF d i] leaf_core [OF inv i k] c
  have "cse ns INT' Null Null c = Some i" by simp
  then show ?thesis by (simp add: mk_leaf)
qed

lemma mk_INT_cases:
  assumes cap: "length ns < nodes_capacity"
  shows "(\<exists>q. cse ns INT' Null Null c = Some q \<and>
            mk (Suc n) v ns INT' Null Null c = Inr (Ref q, ns[q := hit v (ns ! q)])) \<or>
         (cse ns INT' Null Null c = None \<and>
            mk (Suc n) v ns INT' Null Null c =
              Inr (Ref (length ns), ns @ [fresh v INT' Null Null c]))"
  using cap by (cases "cse ns INT' Null Null c") (simp_all add: mk_leaf append_node_def)

lemma mk_fold_step:
  assumes inv: "pool_inv v ns" and i: "i < length ns" and j: "j < length ns"
    and ki: "kind (ns ! i) = INT'" and kj: "kind (ns ! j) = INT'"
    and k: "k = PLUS \<or> k = STAR"
  shows "mk (Suc n) v ns k (Ref i) (Ref j) 0 =
         mk n v ns INT' Null Null
           (if k = PLUS then intValue (ns ! i) + intValue (ns ! j)
            else intValue (ns ! i) * intValue (ns ! j))"
proof -
  have K: "k = STAR \<or> k = PLUS" using k by blast
  then have bin: "is_binop k" by (simp add: is_binop_def)
  have a1: "Ref j = (if kind (ns ! the_ref (Ref i)) = INT' then Ref j else Ref i)"
    and b1: "Ref i = (if kind (ns ! the_ref (Ref i)) = INT' then Ref i else Ref j)"
    using ki by simp_all
  have c: "cse ns k (Ref j) (Ref i) 0 = None"
    by (rule cse_nf_None [OF inv bin]) (simp add: kj)
  have A: "is_ref_below (length ns) (Ref i)" and B: "is_ref_below (length ns) (Ref j)"
    using i j by simp_all
  show ?thesis
    using k ki kj
    by (subst mk_miss [OF K A a1 b1 c B refl refl]) (auto simp: add.commute mult.commute)
qed

lemma mk_simplify_step:
  assumes inv: "pool_inv v ns" and x: "x < length ns" and z: "z < length ns"
    and kx: "kind (ns ! x) \<noteq> INT'" and kz: "kind (ns ! z) = INT'"
    and k: "k = PLUS \<or> k = STAR"
    and c: "intValue (ns ! z) = 0 \<or> (k = STAR \<and> intValue (ns ! z) = 1)"
  shows "mk (Suc n) v ns k (Ref x) (Ref z) 0 =
         (if k = STAR \<and> intValue (ns ! z) = 0 then mk n v ns INT' Null Null 0
          else Inr (Ref x, ns))"
proof -
  have K: "k = STAR \<or> k = PLUS" using k by blast
  then have bin: "is_binop k" by (simp add: is_binop_def)
  have a1: "Ref x = (if kind (ns ! the_ref (Ref x)) = INT' then Ref z else Ref x)"
    and b1: "Ref z = (if kind (ns ! the_ref (Ref x)) = INT' then Ref x else Ref z)"
    using kx by simp_all
  have "fires ns k (Ref x) (Ref z)"
    using k c kz by (auto simp: fires_def Let_def)
  then have cs: "cse ns k (Ref x) (Ref z) 0 = None"
    by (intro cse_nf_None [OF inv bin]) simp
  have A: "is_ref_below (length ns) (Ref x)" and B: "is_ref_below (length ns) (Ref z)"
    using x z by simp_all
  show ?thesis
    using k c kx kz
    by (subst mk_miss [OF K A a1 b1 cs B refl refl]) auto
qed

lemma parse_2048: "parse_main 10 v ''2048'' = Inr (Done (Ref 0, [fresh v INT' Null Null 2048]))"
  by code_simp


lemma parse_orphan: "parse_main 20 v ''(x+1+y)*(x+1)'' = Inr (Done (Ref 6, pool_orphan v))"
  by (cases v; hypsubst; code_simp)

lemma parse_x_times_x: "parse_main 10 X86 ''x*x'' = Inr (Done (Ref 1, pool_x_times_x))"
  by code_simp

lemma cg_frame_refl [simp]: "cg_frame st st"
  by (simp add: cg_frame_def)



lemma pool_ok_emit [simp]: "pool_ok (emit w st) = pool_ok st"
  by (simp add: pool_ok_def emit_def)

lemma nodes_emit [simp]: "nodes (emit w st) = nodes st"
  by (simp add: emit_def)

lemma emit_int_props [simp]:
  "nodes (emit_int k rd st) = nodes st" "pool_ok (emit_int k rd st) = pool_ok st"
  by (simp_all add: emit_int_def)



















lemma x_frame_refl [simp]: "x_frame st st"
  by (simp add: x_frame_def)



lemma x_nodes_emit_x [simp]: "x_nodes (emit_x bs st) = x_nodes st"
  by (simp add: emit_x_def)




section \<open>Claims about the node builder\<close>



text \<open>
  C4. In a pool built by \<open>mk\<close>, for every node \<open>x\<close> (literal, name or compound) and the
  interned literal \<open>z\<close>: when \<open>z\<close> is \<^verbatim>\<open>0\<close>, \<^verbatim>\<open>mk('*', x, z, 0)\<close> returns \<open>z\<close> itself and
  \<^verbatim>\<open>mk('+', x, z, 0)\<close> returns \<open>x\<close> itself; when \<open>z\<close> is \<^verbatim>\<open>1\<close>, \<^verbatim>\<open>mk('*', x, z, 0)\<close> returns \<open>x\<close>
  itself. No node is added. The pool is unchanged but for the \<^verbatim>\<open>shared\<close> field of the returned
  node where the CSE loop found it (for \<open>z\<close>, and for \<open>x\<close> when \<open>x\<close> is a literal).
\<close>

theorem mk_algebraic_identities:
  assumes inv: "pool_inv v ns" and x: "x < length ns" and z: "z < length ns"
    and kz: "kind (ns ! z) = INT'"
  shows "(intValue (ns ! z) = 0 \<longrightarrow>
            mk (Suc (Suc n)) v ns STAR (Ref x) (Ref z) 0 = Inr (Ref z, ns[z := hit v (ns ! z)]) \<and>
            mk (Suc (Suc n)) v ns PLUS (Ref x) (Ref z) 0 =
              Inr (Ref x, if kind (ns ! x) = INT' then ns[x := hit v (ns ! x)] else ns)) \<and>
         (intValue (ns ! z) = 1 \<longrightarrow>
            mk (Suc (Suc n)) v ns STAR (Ref x) (Ref z) 0 =
              Inr (Ref x, if kind (ns ! x) = INT' then ns[x := hit v (ns ! x)] else ns))"
proof -
  have Z: "intValue (ns ! z) = 0 \<Longrightarrow>
      mk (Suc n) v ns INT' Null Null 0 = Inr (Ref z, ns[z := hit v (ns ! z)])"
    by (rule mk_INT_existing [OF inv z kz])
  show ?thesis
  proof (cases "kind (ns ! x) = INT'")
    case True
    have S: "mk (Suc (Suc n)) v ns STAR (Ref x) (Ref z) 0 =
        mk (Suc n) v ns INT' Null Null (intValue (ns ! x) * intValue (ns ! z))"
      using mk_fold_step [OF inv x z True kz, of STAR "Suc n"] by (simp del: mk.simps)
    have P: "mk (Suc (Suc n)) v ns PLUS (Ref x) (Ref z) 0 =
        mk (Suc n) v ns INT' Null Null (intValue (ns ! x) + intValue (ns ! z))"
      using mk_fold_step [OF inv x z True kz, of PLUS "Suc n"] by (simp del: mk.simps)
    have X: "mk (Suc n) v ns INT' Null Null (intValue (ns ! x)) =
        Inr (Ref x, ns[x := hit v (ns ! x)])"
      by (rule mk_INT_existing [OF inv x True refl])
    show ?thesis using True by (simp del: mk.simps add: S P X Z)
  next
    case False
    have S0: "intValue (ns ! z) = 0 \<Longrightarrow>
        mk (Suc (Suc n)) v ns STAR (Ref x) (Ref z) 0 = mk (Suc n) v ns INT' Null Null 0"
      using mk_simplify_step [OF inv x z False kz, of STAR "Suc n"] by (simp del: mk.simps)
    have S1: "intValue (ns ! z) = 1 \<Longrightarrow>
        mk (Suc (Suc n)) v ns STAR (Ref x) (Ref z) 0 = Inr (Ref x, ns)"
      using mk_simplify_step [OF inv x z False kz, of STAR "Suc n"] by (simp del: mk.simps)
    have P0: "intValue (ns ! z) = 0 \<Longrightarrow>
        mk (Suc (Suc n)) v ns PLUS (Ref x) (Ref z) 0 = Inr (Ref x, ns)"
      using mk_simplify_step [OF inv x z False kz, of PLUS "Suc n"] by (simp del: mk.simps)
    show ?thesis using False by (simp del: mk.simps add: S0 S1 P0 Z)
  qed
qed

theorem mk_algebraic_identities_witness:
  "pool_inv RISCV pool_x_0_1 \<and>
   mk (Suc (Suc 0)) RISCV pool_x_0_1 STAR (Ref 0) (Ref 1) 0 =
     Inr (Ref 1, pool_x_0_1[1 := hit RISCV (pool_x_0_1 ! 1)]) \<and>
   mk (Suc (Suc 0)) RISCV pool_x_0_1 PLUS (Ref 0) (Ref 1) 0 = Inr (Ref 0, pool_x_0_1) \<and>
   mk (Suc (Suc 0)) RISCV pool_x_0_1 STAR (Ref 0) (Ref 2) 0 = Inr (Ref 0, pool_x_0_1)"
proof -
  have inv: "pool_inv RISCV pool_x_0_1" by code_simp
  have l: "0 < length pool_x_0_1" "1 < length pool_x_0_1" "2 < length pool_x_0_1"
    by (simp_all add: pool_x_0_1_def)
  have k: "kind (pool_x_0_1 ! 1) = INT'" "kind (pool_x_0_1 ! 2) = INT'"
    "kind (pool_x_0_1 ! 0) \<noteq> INT'"
    "intValue (pool_x_0_1 ! 1) = 0" "intValue (pool_x_0_1 ! 2) = 1"
    by (simp_all add: pool_x_0_1_def fresh_def)
  from mk_algebraic_identities [OF inv l(1) l(2) k(1), of 0]
    mk_algebraic_identities [OF inv l(1) l(3) k(2), of 0] inv k
  show ?thesis by (simp del: mk.simps)
qed

text \<open>
  C5. In a pool built by \<open>mk\<close> with room for one more node, building \<^verbatim>\<open>+\<close> or \<^verbatim>\<open>*\<close> of two
  literal nodes returns one \<^verbatim>\<open>INT\<close> node whose value is the sum, respectively the product, of
  the two values in 32-bit arithmetic. The pool either is unchanged but for the \<^verbatim>\<open>shared\<close>
  field of that node, or has that one \<^verbatim>\<open>INT\<close> node appended: no binary node is added.
\<close>

theorem mk_constant_folding:
  assumes inv: "pool_inv v ns" and i: "i < length ns" and j: "j < length ns"
    and ki: "kind (ns ! i) = INT'" and kj: "kind (ns ! j) = INT'"
    and k: "k = PLUS \<or> k = STAR" and cap: "length ns < nodes_capacity"
  shows "\<exists>p ns'. mk (Suc (Suc n)) v ns k (Ref i) (Ref j) 0 = Inr (Ref p, ns') \<and>
           p < length ns' \<and> kind (ns' ! p) = INT' \<and>
           intValue (ns' ! p) =
             (if k = PLUS then intValue (ns ! i) + intValue (ns ! j)
              else intValue (ns ! i) * intValue (ns ! j)) \<and>
           ((p < length ns \<and> ns' = ns[p := hit v (ns ! p)]) \<or>
            (p = length ns \<and> ns' = ns @ [fresh v INT' Null Null (intValue (ns' ! p))]))"
proof -
  let ?c = "if k = PLUS then intValue (ns ! i) + intValue (ns ! j)
            else intValue (ns ! i) * intValue (ns ! j)"
  note step = mk_fold_step [OF inv i j ki kj k, of "Suc n"]
  from mk_INT_cases [OF cap, of ?c n v] show ?thesis
  proof (elim disjE exE conjE)
    fix q assume q: "cse ns INT' Null Null ?c = Some q"
      and m: "mk (Suc n) v ns INT' Null Null ?c = Inr (Ref q, ns[q := hit v (ns ! q)])"
    from cse_Some [OF q] have "q < length ns" "kind (ns ! q) = INT'" "intValue (ns ! q) = ?c"
      by auto
    moreover have "kind (hit v (ns ! q)) = INT' \<and> intValue (hit v (ns ! q)) = ?c"
      using calculation core_fields [OF core_hit, of v "ns ! q"] by simp
    ultimately show ?thesis
      unfolding step m by (intro exI [of _ q] exI [of _ "ns[q := hit v (ns ! q)]"]) simp
  next
    assume "cse ns INT' Null Null ?c = None"
      and m: "mk (Suc n) v ns INT' Null Null ?c = Inr (Ref (length ns), ns @ [fresh v INT' Null Null ?c])"
    show ?thesis
      unfolding step m
      by (intro exI [of _ "length ns"] exI [of _ "ns @ [fresh v INT' Null Null ?c]"])
        (simp add: fresh_def)
  qed
qed

theorem mk_constant_folding_witness:
  "pool_inv RISCV pool_3_4 \<and> kind (pool_3_4 ! 0) = INT' \<and> kind (pool_3_4 ! 1) = INT' \<and>
   (\<exists>p ns'. mk (Suc (Suc 0)) RISCV pool_3_4 PLUS (Ref 0) (Ref 1) 0 = Inr (Ref p, ns') \<and>
      p < length ns' \<and> kind (ns' ! p) = INT' \<and> intValue (ns' ! p) = 3 + 4)"
proof -
  have inv: "pool_inv RISCV pool_3_4" by code_simp
  have l: "0 < length pool_3_4" "1 < length pool_3_4" "length pool_3_4 < nodes_capacity"
    by (simp_all add: pool_3_4_def nodes_capacity_def)
  have k: "kind (pool_3_4 ! 0) = INT'" "kind (pool_3_4 ! 1) = INT'"
    by (simp_all add: pool_3_4_def fresh_def)
  have iv: "intValue (pool_3_4 ! 0) = 3" "intValue (pool_3_4 ! 1) = 4"
    by (simp_all add: pool_3_4_def fresh_def)
  have P: "PLUS = PLUS \<or> PLUS = STAR" by simp
  from mk_constant_folding [OF inv l(1) l(2) k(1) k(2) P l(3), of 0]
  obtain p ns' where "mk (Suc (Suc 0)) RISCV pool_3_4 PLUS (Ref 0) (Ref 1) 0 = Inr (Ref p, ns')"
    "p < length ns'" "kind (ns' ! p) = INT'" "intValue (ns' ! p) = 3 + 4"
    unfolding iv by (auto simp del: mk.simps)
  with inv k show ?thesis by blast
qed

text \<open>
  C2 (amended). When the canonicalized request \<^verbatim>\<open>(kind, l, r, value)\<close> equals the tuple of a
  node \<open>q\<close> of a pool built by \<open>mk\<close>, \<open>mk\<close> returns \<open>q\<close>, appends no node and changes
  nothing but the field \<^verbatim>\<open>shared\<close> of \<open>q\<close>: the RISC-V file increments it, so that it is at
  least 2 afterwards; the x86 file sets it to 1, where it stays on every later hit.
\<close>

theorem mk_interning:
  assumes inv: "pool_inv v ns" and q: "q < length ns"
    and req: "if k = STAR \<or> k = PLUS
              then is_ref_below (length ns) a \<and>
                   core (ns ! q) = (k, fst (canon ns a b), snd (canon ns a b), c)
              else core (ns ! q) = (k, a, b, c)"
  shows "mk (Suc n) v ns k a b c = Inr (Ref q, ns[q := hit v (ns ! q)]) \<and>
         length (ns[q := hit v (ns ! q)]) = length ns \<and>
         core (hit v (ns ! q)) = core (ns ! q) \<and>
         shared (hit v (ns ! q)) = (case v of RISCV \<Rightarrow> shared (ns ! q) + 1 | X86 \<Rightarrow> 1) \<and>
         (v = RISCV \<longrightarrow> 2 \<le> shared (hit v (ns ! q)))"
proof -
  from inv have d: "distinct (map core ns)" by (simp add: pool_inv_def)
  have run: "mk (Suc n) v ns k a b c = Inr (Ref q, ns[q := hit v (ns ! q)])"
  proof (cases "k = STAR \<or> k = PLUS")
    case True
    with req have a: "is_ref_below (length ns) a"
      and c: "core (ns ! q) = (k, fst (canon ns a b), snd (canon ns a b), c)" by simp_all
    have h: "cse ns k (fst (canon ns a b)) (snd (canon ns a b)) c = Some q"
      by (rule cse_distinct [OF d q c])
    show ?thesis
      by (rule mk_hit [OF True a _ _ h]) (simp_all add: canon_def)
  next
    case False
    with req have "cse ns k a b c = Some q" by (simp add: cse_distinct [OF d q])
    with False show ?thesis by (simp add: mk_leaf)
  qed
  have s: "v = RISCV \<Longrightarrow> 1 \<le> shared (ns ! q)"
    using inv q by (simp add: pool_inv_def)
  have "shared (hit v (ns ! q)) = (case v of RISCV \<Rightarrow> shared (ns ! q) + 1 | X86 \<Rightarrow> 1)"
    by (simp add: hit_def split: variant.splits)
  with run s show ?thesis by (cases v) simp_all
qed

theorem mk_interning_witness:
  "pool_inv RISCV (pool_x RISCV) \<and> core (pool_x RISCV ! 0) = (NAME, Null, Null, 120) \<and>
   mk (Suc 0) RISCV [] NAME Null Null 120 = Inr (Ref 0, pool_x RISCV) \<and>
   mk (Suc 0) RISCV (pool_x RISCV) NAME Null Null 120 =
     Inr (Ref 0, (pool_x RISCV)[0 := hit RISCV (pool_x RISCV ! 0)]) \<and>
   shared (hit RISCV (pool_x RISCV ! 0)) = 2"
proof -
  have inv: "pool_inv RISCV (pool_x RISCV)" by code_simp
  have q: "0 < length (pool_x RISCV)" by (simp add: pool_x_def)
  have c: "core (pool_x RISCV ! 0) = (NAME, Null, Null, 120)"
    by (simp add: pool_x_def core_def fresh_def)
  have req: "if NAME = STAR \<or> NAME = PLUS
      then is_ref_below (length (pool_x RISCV)) Null \<and>
           core (pool_x RISCV ! 0) =
             (NAME, fst (canon (pool_x RISCV) Null Null), snd (canon (pool_x RISCV) Null Null), 120)
      else core (pool_x RISCV ! 0) = (NAME, Null, Null, 120)"
    using c by simp
  have first: "mk (Suc 0) RISCV [] NAME Null Null 120 = Inr (Ref 0, pool_x RISCV)"
    by (simp add: pool_x_def append_node_def nodes_capacity_def)
  have s: "shared (pool_x RISCV ! 0) = 1" by (simp add: pool_x_def fresh_def)
  from mk_interning [OF inv q req, of 0] inv c first s show ?thesis
    by (simp del: mk.simps)
qed

theorem mk_interning_x86_counterexample:
  "mk (Suc 0) X86 [] NAME Null Null 120 = Inr (Ref 0, pool_x X86) \<and>
   mk (Suc 0) X86 (pool_x X86) NAME Null Null 120 = Inr (Ref 0, [(pool_x X86 ! 0)\<lparr>shared := 1\<rparr>]) \<and>
   mk (Suc 0) X86 [(pool_x X86 ! 0)\<lparr>shared := 1\<rparr>] NAME Null Null 120 =
     Inr (Ref 0, [(pool_x X86 ! 0)\<lparr>shared := 1\<rparr>]) \<and>
   \<not> 2 \<le> shared ((pool_x X86 ! 0)\<lparr>shared := 1\<rparr>)"
  by (simp add: pool_x_def append_node_def nodes_capacity_def hit_def fresh_def)

section \<open>Claims about whole runs\<close>

text \<open>
  C1. The claim is that, for every tree and environment, the code of the x86 generator, the
  code of the RISC-V generator and the tree-walking evaluation give the same integer. The
  code departs from it at the input \<^verbatim>\<open>2048\<close>: the RISC-V generator emits no \<^verbatim>\<open>lui\<close> for a
  value below 4096 and puts the low twelve bits \<^verbatim>\<open>0x800\<close> into \<^verbatim>\<open>addi\<close>, which the processor
  sign-extends, so that the generated function returns \<open>-2048\<close>; the tree evaluates to
  2048, and so does the code of the x86 generator.
\<close>

theorem riscv_literal_2048:
  "parse_main 10 RISCV ''2048'' = Inr (Done (Ref 0, pool_2048)) \<and>
   eval default_env pool_2048 0 = 2048 \<and>
   compile_riscv 10 (Ref 0) pool_2048 = Inr [0x80000513, 0x8082] \<and>
   call_riscv 0x10000 default_env (\<lambda>i. 0) [0x80000513, 0x8082] = Inr (- 2048) \<and>
   compile_x86 10 lay0 (Ref 0) pool_2048 = Inr ([0x53, 0xB8, 0x00, 0x08, 0x00, 0x00, 0x5B, 0xC3], 2) \<and>
   call_x86 lay0 default_env 0 0 [0x53, 0xB8, 0x00, 0x08, 0x00, 0x00, 0x5B, 0xC3] = Inr 2048"
  by code_simp

text \<open>
  C9. The claim is that an unexpected token puts the parser into its error state, and that
  the input \<^verbatim>\<open>x+\<close> is reported as a syntax error. The code departs from it: at a token that
  starts no factor, here the end of the input, \<^verbatim>\<open>pFactor\<close> leaves its \<^verbatim>\<open>switch\<close> without
  touching \<^verbatim>\<open>lookahead\<close> and returns its unassigned local; for \<^verbatim>\<open>x+\<close> the builder is then
  called with that pointer and dereferences it, and no syntax error is reported.
\<close>

theorem parser_x_plus_no_syntax_error:
  "parse (Suc n) v PFactor (x\<lparr>lookahead := END_OF_FILE\<rparr>, ns) =
     Inr (Uninit, x\<lparr>lookahead := END_OF_FILE\<rparr>, ns) \<and>
   parse_main 10 RISCV ''x+'' = Inl Undefined_Behaviour \<and>
   parse_main 10 X86 ''x+'' = Inl Undefined_Behaviour"
proof -
  have "parse_main 10 RISCV ''x+'' = Inl Undefined_Behaviour" by code_simp
  moreover have "parse_main 10 X86 ''x+'' = Inl Undefined_Behaviour" by code_simp
  ultimately show ?thesis by simp
qed

text \<open>
  C3. The claim is that \<^verbatim>\<open>shared\<close> of a reachable node is the number of edges of the final
  tree that point to it, never inflated by nodes that rewriting left behind. The code departs
  from it at the input \<^verbatim>\<open>(x+1+y)*(x+1)\<close>: the node \<^verbatim>\<open>x+1\<close> is first built for \<^verbatim>\<open>x+1+y\<close>, which
  is rewritten to \<^verbatim>\<open>x+(y+1)\<close>, and is then found again by the CSE loop. One edge of the final
  tree points to it, and its field \<^verbatim>\<open>shared\<close> is 2 in the RISC-V file and the flag 1 (shared)
  in the x86 file, whose unparser marks it with \<^verbatim>\<open>!\<close>.
\<close>

theorem shared_inflated_by_orphan:
  "parse_main 20 RISCV ''(x+1+y)*(x+1)'' = Inr (Done (Ref 6, pool_orphan RISCV)) \<and>
   2 \<in> reach (length (pool_orphan RISCV)) (pool_orphan RISCV) (Ref 6) \<and>
   edge_count (pool_orphan RISCV) (Ref 6) 2 = 1 \<and>
   shared (pool_orphan RISCV ! 2) = 2 \<and>
   parse_main 20 X86 ''(x+1+y)*(x+1)'' = Inr (Done (Ref 6, pool_orphan X86)) \<and>
   edge_count (pool_orphan X86) (Ref 6) 2 = 1 \<and>
   shared (pool_orphan X86 ! 2) = 1 \<and>
   unparse 10 (pool_orphan X86) (Ref 6) = Inr ''((x+(y+1))*(!x+1))''"
  by code_simp









end
